theory Spec2Isabelle
  imports
    Main
    "HOL-Library.Char_ord"
    "HOL-Library.List_Lexorder"
    "HOL-Library.Product_Lexorder"
    "HOL-Library.Multiset"
begin

section \<open>Tokens, positions and error lists\<close>

text \<open>
  The kinds of \<^verbatim>\<open>go/token.Token\<close> that the program names, and one constructor for
  every other kind (keywords, operators, literals, the automatic semicolon).
\<close>

datatype token = ILLEGAL | EOF | IDENT | ASSIGN | DEFINE | COMMA | COLON | VAR | OtherTok string

text \<open>
  \<^verbatim>\<open>token.Position\<close> without its byte offset, which no code of the program reads, and
  \<^verbatim>\<open>scanner.Error\<close>. A \<^verbatim>\<open>scanner.ErrorList\<close> is a list of errors; \<^verbatim>\<open>Add\<close> appends.
\<close>

record position =
  Filename :: string
  Line :: int
  Column :: int

record error =
  Pos :: position
  Msg :: string

text \<open>
  \<^verbatim>\<open>ErrorList.Sort\<close> orders by file name, line, column and message, in this order. The
  order is total on the four fields, so the sorted list is the same for every sorting
  algorithm.
\<close>

definition errorKey :: "error \<Rightarrow> string \<times> int \<times> int \<times> string" where
  "errorKey e = (Filename (Pos e), Line (Pos e), Column (Pos e), Msg e)"

definition sortErrors :: "error list \<Rightarrow> error list" where
  "sortErrors es = sort_key errorKey es"

datatype panic =
    SliceBounds
  | IndexStmt
  | TypeAssertion
  | NilDereference
  | IndexRange
  | Dangling

definition cprefTag :: string where
  "cprefTag = ''GOOEY_COLON_''"

definition tempTag :: string where
  "tempTag = ''GOOEY_TEMP_''"

section \<open>The token rewriter of parseFile\<close>

text \<open>
  One entry of the window \<^verbatim>\<open>last4\<close>. The scanner is an external collaborator: it is
  given by the list of its results, each the errors it reported to the error handler
  during one call of \<^verbatim>\<open>Scan\<close> and the token the call returned. After the last
  entry the scanner returns \<^verbatim>\<open>EOF\<close>.
\<close>

record tokinfo =
  pos :: int
  tok :: token
  lit :: string

type_synonym scanned = "error list \<times> tokinfo"

record rewriter =
  buf :: string
  low :: int
  errs :: "error list"
  last4 :: "tokinfo list"

definition zeroTok :: tokinfo where
  "zeroTok = \<lparr>pos = 0, tok = ILLEGAL, lit = []\<rparr>"

definition rewriter0 :: rewriter where
  "rewriter0 = \<lparr>buf = [], low = 0, errs = [], last4 = [zeroTok, zeroTok, zeroTok, zeroTok]\<rparr>"

text \<open>\<^verbatim>\<open>src[lo:hi]\<close>; Go panics unless \<open>0 \<le> lo \<le> hi \<le> len(src)\<close>.\<close>

definition slice :: "'a list \<Rightarrow> int \<Rightarrow> int \<Rightarrow> 'a list option" where
  "slice s lo hi =
     (if 0 \<le> lo \<and> lo \<le> hi \<and> hi \<le> int (length s)
      then Some (take (nat (hi - lo)) (drop (nat lo) s)) else None)"

definition evilMsg :: string where
  "evilMsg = ''evil token: \":=\"''"

text \<open>
  The body of the loop \<^verbatim>\<open>for i := 0; ; i++\<close> of parseFile after the test for
  \<^verbatim>\<open>EOF\<close>, where \<open>t\<close> is the token just scanned and already stored in the window;
  every \<^verbatim>\<open>continue\<close> returns the state. \<open>base\<close> is \<^verbatim>\<open>fset2.Base()\<close> and \<open>fpos\<close>
  is \<^verbatim>\<open>fset2.Position\<close>. The result is \<open>None\<close> when a slice expression panics.
\<close>

definition scanStep ::
  "int \<Rightarrow> (int \<Rightarrow> position) \<Rightarrow> string \<Rightarrow> nat \<Rightarrow> tokinfo \<Rightarrow> rewriter \<Rightarrow> rewriter option"
where
  "scanStep base fpos src i t st =
     (if tok t = DEFINE then
        Some (st\<lparr>errs := errs st @ [\<lparr>Pos = fpos (pos t), Msg = evilMsg\<rparr>]\<rparr>)
      else if i < 2 \<or> (tok t \<noteq> ASSIGN \<and> tok t \<noteq> COMMA) then Some st
      else
        (let ident = last4 st ! ((i - 1) mod 4);
             colon = last4 st ! ((i - 2) mod 4)
         in
         if tok ident \<noteq> IDENT \<or> tok colon \<noteq> COLON \<or> lit ident = ''_''
            \<or> pos colon + 1 \<noteq> pos ident
         then Some st
         else
           (let high = pos colon - base in
            case slice src (low st) high of
              None \<Rightarrow> None
            | Some s1 \<Rightarrow>
               (let low' = high + 1; high' = pos t - base in
                case slice src low' high' of
                  None \<Rightarrow> None
                | Some s2 \<Rightarrow>
                    Some (st\<lparr>buf := buf st @ s1 @ '' '' @ cprefTag @ s2
                              @ (if tok t = ASSIGN
                                    \<and> (i < 3 \<or> tok (last4 st ! ((i - 3) mod 4)) \<noteq> COMMA)
                                 then '':'' else []),
                           low := high'\<rparr>)))))"

text \<open>
  The loop: scan a token into \<^verbatim>\<open>last4[i%4]\<close>, stop at \<^verbatim>\<open>EOF\<close>, run the body.
\<close>

fun scanLoop ::
  "int \<Rightarrow> (int \<Rightarrow> position) \<Rightarrow> string \<Rightarrow> scanned list \<Rightarrow> nat \<Rightarrow> rewriter \<Rightarrow> rewriter option"
where
  "scanLoop base fpos src [] i st = Some st"
| "scanLoop base fpos src (et # rest) i st =
     (let st1 = st\<lparr>errs := errs st @ fst et, last4 := (last4 st)[i mod 4 := snd et]\<rparr> in
      if tok (snd et) = EOF then Some st1
      else
        (case scanStep base fpos src i (snd et) st1 of
           None \<Rightarrow> None
         | Some st2 \<Rightarrow> scanLoop base fpos src rest (Suc i) st2))"

text \<open>
  The loop, then \<^verbatim>\<open>buf.Write(src[low:])\<close>: the rewritten buffer and the error list.
\<close>

definition rewriteTokens ::
  "int \<Rightarrow> (int \<Rightarrow> position) \<Rightarrow> string \<Rightarrow> scanned list \<Rightarrow> panic + (string \<times> error list)"
where
  "rewriteTokens base fpos src toks =
     (case scanLoop base fpos src toks 0 rewriter0 of
        None \<Rightarrow> Inl SliceBounds
      | Some st \<Rightarrow>
         (case slice src (low st) (int (length src)) of
            None \<Rightarrow> Inl SliceBounds
          | Some s \<Rightarrow> Inr (buf st @ s, errs st)))"

section \<open>The syntax tree\<close>

text \<open>
  The nodes of \<^verbatim>\<open>go/ast\<close> that the program distinguishes, with the fields it reads, and
  \<open>Other\<close> for every other node type (expressions, declarations, the file, the other
  statements), holding the node's children in the order in which \<^verbatim>\<open>ast.Walk\<close> visits
  them. A field that may be \<^verbatim>\<open>nil\<close> is an option.

  A pointer is the address of the node it points to. The nodes whose identity the
  program uses carry their address: the assignment (\<^verbatim>\<open>change.assign\<close>, \<^verbatim>\<open>change.ref\<close>,
  \<^verbatim>\<open>visitor.comm\<close>), the labeled statement (\<^verbatim>\<open>ilabel\<close>, \<^verbatim>\<open>olabel\<close>, \<^verbatim>\<open>&ilabel.Stmt\<close>) and
  the three nodes that own a statement list (\<^verbatim>\<open>&n.List\<close>, \<^verbatim>\<open>&n.Body\<close>). An identifier
  and \<open>Other\<close> carry their source position. \<open>DeclStmt tok names values\<close> is a
  declaration statement of one \<^verbatim>\<open>GenDecl\<close> with one \<^verbatim>\<open>ValueSpec\<close>, the form makeDecl
  builds.
\<close>

type_synonym addr = nat

datatype node =
    Ident int string
  | AssignStmt addr "node list" token "node list"
  | BlockStmt addr "node list"
  | CaseClause addr "node list" "node list"
  | CommClause addr "node option" "node list"
  | LabeledStmt addr node node
  | RangeStmt int "node option" "node option" token node node
  | ForStmt "node option" "node option" "node option" node
  | IfStmt "node option" node node "node option"
  | SwitchStmt "node option" "node option" node
  | TypeSwitchStmt "node option" node node
  | DeclStmt token "node list" "node list"
  | Other int "node list"

fun addrOf :: "node \<Rightarrow> addr option" where
  "addrOf (AssignStmt a lhs t rhs) = Some a"
| "addrOf (BlockStmt a l) = Some a"
| "addrOf (CaseClause a es body) = Some a"
| "addrOf (CommClause a c body) = Some a"
| "addrOf (LabeledStmt a lab s) = Some a"
| "addrOf n = None"

text \<open>\<^verbatim>\<open>Pos()\<close> of an expression: an identifier or another expression.\<close>

fun exprPos :: "node \<Rightarrow> int" where
  "exprPos (Ident p name) = p"
| "exprPos (Other p ks) = p"
| "exprPos n = 0"

definition opt :: "'a option \<Rightarrow> 'a list" where
  "opt x = (case x of None \<Rightarrow> [] | Some y \<Rightarrow> [y])"

text \<open>The children of a node, in the order of \<^verbatim>\<open>ast.Walk\<close>, which skips a nil field.\<close>

fun kids :: "node \<Rightarrow> node list" where
  "kids (Ident p name) = []"
| "kids (AssignStmt a lhs t rhs) = lhs @ rhs"
| "kids (BlockStmt a l) = l"
| "kids (CaseClause a es body) = es @ body"
| "kids (CommClause a c body) = opt c @ body"
| "kids (LabeledStmt a lab s) = [lab, s]"
| "kids (RangeStmt p k v t x body) = opt k @ opt v @ [x, body]"
| "kids (ForStmt i c p body) = opt i @ opt c @ opt p @ [body]"
| "kids (IfStmt i c body e) = opt i @ [c, body] @ opt e"
| "kids (SwitchStmt i t body) = opt i @ opt t @ [body]"
| "kids (TypeSwitchStmt i a body) = opt i @ [a, body]"
| "kids (DeclStmt t names vals) = names @ vals"
| "kids (Other p ks) = ks"

text \<open>
  The node with its children replaced, field by field: \<open>fill x ks\<close> takes the new
  value of an optional field from the front of \<open>ks\<close> and returns the rest.
\<close>

definition fill :: "'a option \<Rightarrow> 'a list \<Rightarrow> 'a option \<times> 'a list" where
  "fill x ks = (case x of None \<Rightarrow> (None, ks) | Some y \<Rightarrow> (case ks of [] \<Rightarrow> (Some y, []) | k # r \<Rightarrow> (Some k, r)))"

definition one :: "'a \<Rightarrow> 'a list \<Rightarrow> 'a \<times> 'a list" where
  "one y ks = (case ks of [] \<Rightarrow> (y, []) | k # r \<Rightarrow> (k, r))"

fun withKids :: "node \<Rightarrow> node list \<Rightarrow> node" where
  "withKids (Ident p name) ks = Ident p name"
| "withKids (AssignStmt a lhs t rhs) ks =
     AssignStmt a (take (length lhs) ks) t (drop (length lhs) ks)"
| "withKids (BlockStmt a l) ks = BlockStmt a ks"
| "withKids (CaseClause a es body) ks =
     CaseClause a (take (length es) ks) (drop (length es) ks)"
| "withKids (CommClause a c body) ks =
     (case fill c ks of (c', r) \<Rightarrow> CommClause a c' r)"
| "withKids (LabeledStmt a lab s) ks =
     (case one lab ks of (lab', r) \<Rightarrow> case one s r of (s', r') \<Rightarrow> LabeledStmt a lab' s')"
| "withKids (RangeStmt p k v t x body) ks =
     (case fill k ks of (k', r1) \<Rightarrow> case fill v r1 of (v', r2) \<Rightarrow>
      case one x r2 of (x', r3) \<Rightarrow> case one body r3 of (body', r4) \<Rightarrow>
        RangeStmt p k' v' t x' body')"
| "withKids (ForStmt i c p body) ks =
     (case fill i ks of (i', r1) \<Rightarrow> case fill c r1 of (c', r2) \<Rightarrow>
      case fill p r2 of (p', r3) \<Rightarrow> case one body r3 of (body', r4) \<Rightarrow>
        ForStmt i' c' p' body')"
| "withKids (IfStmt i c body e) ks =
     (case fill i ks of (i', r1) \<Rightarrow> case one c r1 of (c', r2) \<Rightarrow>
      case one body r2 of (body', r3) \<Rightarrow> case fill e r3 of (e', r4) \<Rightarrow>
        IfStmt i' c' body' e')"
| "withKids (SwitchStmt i t body) ks =
     (case fill i ks of (i', r1) \<Rightarrow> case fill t r1 of (t', r2) \<Rightarrow>
      case one body r2 of (body', r3) \<Rightarrow> SwitchStmt i' t' body')"
| "withKids (TypeSwitchStmt i a body) ks =
     (case fill i ks of (i', r1) \<Rightarrow> case one a r1 of (a', r2) \<Rightarrow>
      case one body r2 of (body', r3) \<Rightarrow> TypeSwitchStmt i' a' body')"
| "withKids (DeclStmt t names vals) ks =
     DeclStmt t (take (length names) ks) (drop (length names) ks)"
| "withKids (Other p ks0) ks = Other p ks"

lemma size_list_mem: "x \<in> set xs \<Longrightarrow> f x \<le> size_list f xs"
  by (induction xs) auto

lemma kids_size:
  assumes "k \<in> set (kids n)"
  shows "size k < size n"
proof -
  have le: "\<And>xs. k \<in> set xs \<Longrightarrow> size k \<le> size_list size xs"
    by (rule size_list_mem)
  show ?thesis
    using assms
    by (cases n) (auto simp: opt_def less_Suc_eq_le dest!: le split: option.splits)
qed

section \<open>parseFile\<close>

text \<open>\<^verbatim>\<open>strings.HasPrefix(s, p)\<close>.\<close>

definition hasPrefix :: "string \<Rightarrow> string \<Rightarrow> bool" where
  "hasPrefix s p = (take (length p) s = p)"

text \<open>
  The function that parseFile hands to \<^verbatim>\<open>ast.Inspect\<close>, at one node: it turns the
  operator \<^verbatim>\<open>:=\<close> of an assignment or of a range statement into \<^verbatim>\<open>=\<close> and the tag of
  an identifier into a colon.
\<close>

fun revert1 :: "node \<Rightarrow> node" where
  "revert1 (AssignStmt a lhs t rhs) = AssignStmt a lhs (if t = DEFINE then ASSIGN else t) rhs"
| "revert1 (RangeStmt p k v t x body) =
     RangeStmt p k v (if t = DEFINE then ASSIGN else t) x body"
| "revert1 (Ident p name) =
     (if hasPrefix name cprefTag then Ident p ('':'' @ drop (length cprefTag) name)
      else Ident p name)"
| "revert1 n = n"

lemma kids_revert1: "kids (revert1 n) = kids n"
  by (cases n) auto

text \<open>\<^verbatim>\<open>ast.Inspect\<close> with that function: every node, parents first.\<close>

function revert :: "node \<Rightarrow> node" where
  "revert n = withKids (revert1 n) (map revert (kids (revert1 n)))"
  by pat_completeness auto
termination
  by (relation "measure size") (auto simp: kids_revert1 kids_size)

text \<open>
  parseFile. The parser is an external collaborator, given as the function \<open>parser\<close>
  from the rewritten buffer to the pair \<^verbatim>\<open>(tree, err)\<close>; \<^verbatim>\<open>err == nil\<close> is the empty
  list. The result is parseFile's pair of results, or a panic.
\<close>

definition parseFile ::
  "int \<Rightarrow> (int \<Rightarrow> position) \<Rightarrow> (string \<Rightarrow> node option \<times> error list) \<Rightarrow> string \<Rightarrow> scanned list
     \<Rightarrow> panic + (node option \<times> error list)"
where
  "parseFile base fpos parser src toks =
     (case rewriteTokens base fpos src toks of
        Inl p \<Rightarrow> Inl p
      | Inr (b, es) \<Rightarrow>
          if es \<noteq> [] then Inr (None, es)
          else
            (case parser b of
               (tree, err) \<Rightarrow>
                 if err \<noteq> [] then Inr (tree, err)
                 else
                   (case tree of
                      None \<Rightarrow> Inl NilDereference
                    | Some t \<Rightarrow> Inr (Some (revert t), []))))"

section \<open>The token rewriter, as the specification words it\<close>

text \<open>The tokens the loop handles: those before the first \<^verbatim>\<open>EOF\<close>.\<close>

definition liveToks :: "scanned list \<Rightarrow> tokinfo list" where
  "liveToks toks = map snd (takeWhile (\<lambda>et. tok (snd et) \<noteq> EOF) toks)"

text \<open>
  Token \<open>i\<close> ends the sequence \<^verbatim>\<open>COLON IDENT (ASSIGN | COMMA)\<close>, the colon stands
  immediately before the identifier, and the identifier is not the discard placeholder.
\<close>

definition isMarker :: "tokinfo list \<Rightarrow> nat \<Rightarrow> bool" where
  "isMarker ts i \<longleftrightarrow>
     2 \<le> i \<and> (tok (ts ! i) = ASSIGN \<or> tok (ts ! i) = COMMA)
     \<and> tok (ts ! (i - 2)) = COLON \<and> tok (ts ! (i - 1)) = IDENT
     \<and> lit (ts ! (i - 1)) \<noteq> ''_''
     \<and> pos (ts ! (i - 2)) + 1 = pos (ts ! (i - 1))"

text \<open>
  The terminating token is the plain assignment operator and the token three positions
  back, if there is one, is not a comma.
\<close>

definition fixesAssign :: "tokinfo list \<Rightarrow> nat \<Rightarrow> bool" where
  "fixesAssign ts i \<longleftrightarrow> tok (ts ! i) = ASSIGN \<and> (i < 3 \<or> tok (ts ! (i - 3)) \<noteq> COMMA)"

text \<open>
  The rewritten text from token \<open>i\<close> on, when the source has been copied up to the
  offset \<open>lo\<close>: at a marker the text up to the colon, a space and the tag in place of
  the colon, the identifier and what follows it up to the terminating token, and a
  colon before that token where it becomes \<^verbatim>\<open>:=\<close>.
\<close>

function encode :: "int \<Rightarrow> string \<Rightarrow> tokinfo list \<Rightarrow> nat \<Rightarrow> int \<Rightarrow> string option" where
  "encode base src ts i lo =
     (if length ts \<le> i then slice src lo (int (length src))
      else if isMarker ts i then
        (case slice src lo (pos (ts ! (i - 2)) - base) of
           None \<Rightarrow> None
         | Some s1 \<Rightarrow>
            (case slice src (pos (ts ! (i - 2)) - base + 1) (pos (ts ! i) - base) of
               None \<Rightarrow> None
             | Some s2 \<Rightarrow>
                (case encode base src ts (Suc i) (pos (ts ! i) - base) of
                   None \<Rightarrow> None
                 | Some r \<Rightarrow>
                     Some (s1 @ '' '' @ cprefTag @ s2
                           @ (if fixesAssign ts i then '':'' else []) @ r))))
      else encode base src ts (Suc i) lo)"
  by pat_completeness auto
termination
  by (relation "measure (\<lambda>(base, src, ts, i, lo). length ts - i)") auto
section \<open>The token rewriter agrees with its specification\<close>

declare encode.simps [simp del]
declare revert.simps [simp del]

lemma mod4_distinct:
  fixes i j :: nat
  assumes "j < i" "i < j + 4"
  shows "j mod 4 \<noteq> i mod 4"
proof
  assume "j mod 4 = i mod 4"
  then have "i mod 4 = j mod 4" by simp
  then have "4 dvd i - j" using assms(1) by (simp add: mod_eq_dvd_iff_nat)
  moreover have "0 < i - j" "i - j < 4" using assms by simp_all
  ultimately show False by (meson nat_dvd_not_less)
qed

text \<open>
  The window holds the last four tokens scanned: before token \<open>i\<close> is stored, the
  entries \<open>j mod 4\<close> for \<open>i - 4 \<le> j < i\<close>.
\<close>

definition winOK :: "tokinfo list \<Rightarrow> nat \<Rightarrow> rewriter \<Rightarrow> bool" where
  "winOK ts i st \<longleftrightarrow>
     length (last4 st) = 4 \<and> (\<forall>j. j < i \<and> i \<le> j + 4 \<longrightarrow> last4 st ! (j mod 4) = ts ! j)"

text \<open>What parseFile writes once the loop has ended: the buffer and \<^verbatim>\<open>src[low:]\<close>.\<close>

definition finish :: "string \<Rightarrow> rewriter option \<Rightarrow> string option" where
  "finish src r =
     (case r of None \<Rightarrow> None
      | Some st \<Rightarrow> map_option (\<lambda>s. buf st @ s) (slice src (low st) (int (length src))))"

lemma winOK_store:
  assumes "winOK ts i st" "ts ! i = t"
  shows "winOK ts (Suc i) (st\<lparr>errs := e, last4 := (last4 st)[i mod 4 := t]\<rparr>)"
proof -
  have l: "length (last4 st) = 4" using assms by (simp add: winOK_def)
  have "((last4 st)[i mod 4 := t]) ! (j mod 4) = ts ! j" if "j < Suc i" "Suc i \<le> j + 4" for j
  proof (cases "j = i")
    case True
    then show ?thesis using l assms(2) by simp
  next
    case False
    then have "j < i" "i < j + 4" using that by simp_all
    then have "j mod 4 \<noteq> i mod 4" by (rule mod4_distinct)
    moreover have "last4 st ! (j mod 4) = ts ! j"
      using assms(1) \<open>j < i\<close> \<open>i < j + 4\<close> by (simp add: winOK_def)
    ultimately show ?thesis by simp
  qed
  then show ?thesis using l by (simp add: winOK_def)
qed

lemma winOK_nth:
  assumes "winOK ts (Suc i) st" "d \<le> i" "d \<le> 3"
  shows "last4 st ! ((i - d) mod 4) = ts ! (i - d)"
proof -
  have "\<forall>j. j < Suc i \<and> Suc i \<le> j + 4 \<longrightarrow> last4 st ! (j mod 4) = ts ! j"
    using assms(1) by (simp add: winOK_def)
  moreover have "i - d < Suc i" by simp
  moreover have "Suc i \<le> (i - d) + 4" using assms(2,3) by linarith
  ultimately show ?thesis by blast
qed

lemma scanStep_plain:
  assumes w: "winOK ts (Suc i) st" and m: "\<not> isMarker ts i" and nd: "tok (ts ! i) \<noteq> DEFINE"
  shows "scanStep base fpos src i (ts ! i) st = Some st"
proof -
  have w1: "1 \<le> i \<Longrightarrow> last4 st ! ((i - 1) mod 4) = ts ! (i - 1)"
    using winOK_nth [OF w, of 1] by simp
  have w2: "2 \<le> i \<Longrightarrow> last4 st ! ((i - 2) mod 4) = ts ! (i - 2)"
    using winOK_nth [OF w, of 2] by simp
  show ?thesis
  proof (cases "i < 2 \<or> (tok (ts ! i) \<noteq> ASSIGN \<and> tok (ts ! i) \<noteq> COMMA)")
    case True
    then show ?thesis using nd by (simp add: scanStep_def)
  next
    case False
    then have i2: "2 \<le> i" by simp
    have "tok (ts ! (i - 1)) \<noteq> IDENT \<or> tok (ts ! (i - 2)) \<noteq> COLON \<or> lit (ts ! (i - 1)) = ''_''
            \<or> pos (ts ! (i - 2)) + 1 \<noteq> pos (ts ! (i - 1))"
      using m False i2 unfolding isMarker_def by blast
    then show ?thesis
      using nd False i2 w1 w2 by (simp add: scanStep_def Let_def)
  qed
qed

lemma scanStep_define:
  assumes "tok t = DEFINE"
  shows "scanStep base fpos src i t st
           = Some (st\<lparr>errs := errs st @ [\<lparr>Pos = fpos (pos t), Msg = evilMsg\<rparr>]\<rparr>)"
  using assms by (simp add: scanStep_def)

lemma scanStep_marker:
  assumes w: "winOK ts (Suc i) st" and m: "isMarker ts i"
  shows "scanStep base fpos src i (ts ! i) st =
     (case slice src (low st) (pos (ts ! (i - 2)) - base) of
        None \<Rightarrow> None
      | Some s1 \<Rightarrow>
         (case slice src (pos (ts ! (i - 2)) - base + 1) (pos (ts ! i) - base) of
            None \<Rightarrow> None
          | Some s2 \<Rightarrow>
              Some (st\<lparr>buf := buf st @ s1 @ '' '' @ cprefTag @ s2
                           @ (if fixesAssign ts i then '':'' else []),
                      low := pos (ts ! i) - base\<rparr>)))"
proof -
  have i2: "2 \<le> i" using m by (simp add: isMarker_def)
  have w1: "last4 st ! ((i - 1) mod 4) = ts ! (i - 1)"
    using winOK_nth [OF w, of 1] i2 by simp
  have w2: "last4 st ! ((i - 2) mod 4) = ts ! (i - 2)"
    using winOK_nth [OF w, of 2] i2 by simp
  have w3: "3 \<le> i \<Longrightarrow> last4 st ! ((i - 3) mod 4) = ts ! (i - 3)"
    using winOK_nth [OF w, of 3] by simp
  have nd: "tok (ts ! i) \<noteq> DEFINE" using m by (auto simp: isMarker_def)
  have c1: "\<not> (i < 2 \<or> (tok (ts ! i) \<noteq> ASSIGN \<and> tok (ts ! i) \<noteq> COMMA))"
    using m by (auto simp: isMarker_def)
  have c2: "\<not> (tok (ts ! (i - 1)) \<noteq> IDENT \<or> tok (ts ! (i - 2)) \<noteq> COLON \<or> lit (ts ! (i - 1)) = ''_''
            \<or> pos (ts ! (i - 2)) + 1 \<noteq> pos (ts ! (i - 1)))"
    using m by (auto simp: isMarker_def)
  have fa: "(tok (ts ! i) = ASSIGN \<and> (i < 3 \<or> tok (last4 st ! ((i - 3) mod 4)) \<noteq> COMMA))
              = fixesAssign ts i"
    using w3 by (cases "i < 3") (simp_all add: fixesAssign_def)
  show ?thesis
    unfolding scanStep_def Let_def w1 w2 fa
    using nd c1 c2 by (auto simp: add.commute split: option.splits)
qed


lemma liveToks_Nil [simp]: "liveToks [] = []"
  by (simp add: liveToks_def)

lemma liveToks_Cons:
  "liveToks (et # rest) = (if tok (snd et) = EOF then [] else snd et # liveToks rest)"
  by (simp add: liveToks_def)

lemma scanLoop_encode:
  assumes "liveToks rest = drop i ts" "winOK ts i st"
  shows "finish src (scanLoop base fpos src rest i st)
           = map_option (\<lambda>s. buf st @ s) (encode base src ts i (low st))"
  using assms
proof (induction rest arbitrary: i st)
  case Nil
  then have "length ts \<le> i" by simp
  then show ?case by (simp add: finish_def encode.simps)
next
  case (Cons et rest)
  define st1 where "st1 = st\<lparr>errs := errs st @ fst et, last4 := (last4 st)[i mod 4 := snd et]\<rparr>"
  show ?case
  proof (cases "tok (snd et) = EOF")
    case True
    then have "length ts \<le> i" using Cons.prems(1) by (simp add: liveToks_Cons)
    then show ?thesis using True by (simp add: finish_def encode.simps)
  next
    case False
    then have d: "drop i ts = snd et # liveToks rest"
      using Cons.prems(1) by (simp add: liveToks_Cons)
    then have i: "i < length ts" by (cases "i < length ts") auto
    have t: "ts ! i = snd et" using d i by (metis nth_via_drop)
    have r: "liveToks rest = drop (Suc i) ts" using d by (metis drop_Suc tl_drop list.sel(3))
    have w1: "winOK ts (Suc i) st1"
      unfolding st1_def using Cons.prems(2) t by (rule winOK_store)
    have buf1: "buf st1 = buf st" "low st1 = low st" by (simp_all add: st1_def)
    have loop: "scanLoop base fpos src (et # rest) i st =
        (case scanStep base fpos src i (ts ! i) st1 of None \<Rightarrow> None
         | Some st2 \<Rightarrow> scanLoop base fpos src rest (Suc i) st2)"
      using False t by (simp add: st1_def Let_def)
    show ?thesis
    proof (cases "isMarker ts i")
      case m: True
      show ?thesis
      proof (cases "slice src (low st) (pos (ts ! (i - 2)) - base)")
        case None
        then show ?thesis
          using m i by (simp del: scanLoop.simps add: loop scanStep_marker [OF w1 m] buf1 finish_def encode.simps [of base src ts i])
      next
        case s1: (Some s1)
        show ?thesis
        proof (cases "slice src (pos (ts ! (i - 2)) - base + 1) (pos (ts ! i) - base)")
          case None
          then show ?thesis
            using m i s1
            by (simp del: scanLoop.simps add: loop scanStep_marker [OF w1 m] buf1 finish_def encode.simps [of base src ts i])
        next
          case s2: (Some s2)
          define st2 where "st2 = st1\<lparr>buf := buf st1 @ s1 @ '' '' @ cprefTag @ s2
                           @ (if fixesAssign ts i then '':'' else []),
                      low := pos (ts ! i) - base\<rparr>"
          have w2: "winOK ts (Suc i) st2" using w1 by (simp add: st2_def winOK_def)
          have step: "scanStep base fpos src i (ts ! i) st1 = Some st2"
            using s1 s2 by (simp add: scanStep_marker [OF w1 m] buf1 st2_def)
          have "finish src (scanLoop base fpos src rest (Suc i) st2)
                  = map_option (\<lambda>s. buf st2 @ s) (encode base src ts (Suc i) (low st2))"
            using r w2 by (rule Cons.IH)
          then show ?thesis
            using m i s1 s2
            by (simp del: scanLoop.simps add: loop step encode.simps [of base src ts i] st2_def buf1
                  split: option.splits)
        qed
      qed
    next
      case m: False
      show ?thesis
      proof (cases "tok (ts ! i) = DEFINE")
        case True
        define st2 where "st2 = st1\<lparr>errs := errs st1 @ [\<lparr>Pos = fpos (pos (ts ! i)), Msg = evilMsg\<rparr>]\<rparr>"
        have w2: "winOK ts (Suc i) st2" using w1 by (simp add: st2_def winOK_def)
        have step: "scanStep base fpos src i (ts ! i) st1 = Some st2"
          using True by (simp add: scanStep_define st2_def)
        have "finish src (scanLoop base fpos src rest (Suc i) st2)
                  = map_option (\<lambda>s. buf st2 @ s) (encode base src ts (Suc i) (low st2))"
          using r w2 by (rule Cons.IH)
        then show ?thesis
          using m i by (simp del: scanLoop.simps add: loop step encode.simps [of base src ts i] st2_def buf1)
      next
        case False
        have step: "scanStep base fpos src i (ts ! i) st1 = Some st1"
          using w1 m False by (rule scanStep_plain)
        have "finish src (scanLoop base fpos src rest (Suc i) st1)
                  = map_option (\<lambda>s. buf st1 @ s) (encode base src ts (Suc i) (low st1))"
          using r w1 by (rule Cons.IH)
        then show ?thesis
          using m i by (simp del: scanLoop.simps add: loop step encode.simps [of base src ts i] buf1)
      qed
    qed
  qed
qed


text \<open>
  The error list after the loop: what the scanner reported, and one error for each
  \<^verbatim>\<open>:=\<close> before the end of the input.
\<close>

fun lexErrors :: "(int \<Rightarrow> position) \<Rightarrow> scanned list \<Rightarrow> error list" where
  "lexErrors fpos [] = []"
| "lexErrors fpos (et # rest) =
     fst et @
     (if tok (snd et) = EOF then []
      else (if tok (snd et) = DEFINE then [\<lparr>Pos = fpos (pos (snd et)), Msg = evilMsg\<rparr>] else [])
           @ lexErrors fpos rest)"

text \<open>
  What the scanner guarantees of its tokens: their positions increase and lie in the
  file, whose positions are \<open>base\<close> to \<open>base + len(src)\<close>.
\<close>

definition wfToks :: "int \<Rightarrow> string \<Rightarrow> tokinfo list \<Rightarrow> bool" where
  "wfToks base src ts \<longleftrightarrow>
     sorted_wrt (<) (map pos ts)
     \<and> (\<forall>t \<in> set ts. base \<le> pos t \<and> pos t - base \<le> int (length src))"

lemma scanStep_elist:
  assumes "scanStep base fpos src i t st = Some st'"
  shows "errs st' = errs st @ (if tok t = DEFINE then [\<lparr>Pos = fpos (pos t), Msg = evilMsg\<rparr>] else [])"
  using assms by (auto simp: scanStep_def Let_def split: if_splits option.splits)

lemma scanLoop_elist:
  assumes "scanLoop base fpos src toks i st = Some st'"
  shows "errs st' = errs st @ lexErrors fpos toks"
  using assms
proof (induction toks arbitrary: i st)
  case Nil
  then show ?case by simp
next
  case (Cons et rest)
  define st1 where "st1 = st\<lparr>errs := errs st @ fst et, last4 := (last4 st)[i mod 4 := snd et]\<rparr>"
  show ?case
  proof (cases "tok (snd et) = EOF")
    case True
    then show ?thesis using Cons.prems by (auto simp: Let_def)
  next
    case False
    then obtain st2 where s: "scanStep base fpos src i (snd et) st1 = Some st2"
      and l: "scanLoop base fpos src rest (Suc i) st2 = Some st'"
      using Cons.prems by (auto simp: Let_def st1_def split: option.splits)
    have "errs st2 = errs st1 @ (if tok (snd et) = DEFINE then [\<lparr>Pos = fpos (pos (snd et)), Msg = evilMsg\<rparr>] else [])"
      using s by (rule scanStep_elist)
    moreover have "errs st' = errs st2 @ lexErrors fpos rest" using l by (rule Cons.IH)
    ultimately show ?thesis using False by (simp add: st1_def)
  qed
qed

lemma lexErrors_evil:
  assumes "t \<in> set (liveToks toks)" "tok t = DEFINE"
  shows "\<lparr>Pos = fpos (pos t), Msg = evilMsg\<rparr> \<in> set (lexErrors fpos toks)"
  using assms
  by (induction toks) (auto simp: liveToks_Cons split: if_splits)

text \<open>\<open>low\<close> is 0 or the offset of an earlier \<^verbatim>\<open>=\<close> or comma.\<close>

definition lowOK :: "int \<Rightarrow> tokinfo list \<Rightarrow> nat \<Rightarrow> int \<Rightarrow> bool" where
  "lowOK base ts i lo \<longleftrightarrow>
     lo = 0 \<or> (\<exists>j<i. j < length ts \<and> lo = pos (ts ! j) - base
                  \<and> (tok (ts ! j) = ASSIGN \<or> tok (ts ! j) = COMMA))"

lemma wfToks_off:
  assumes "wfToks base src ts" "j < length ts"
  shows "0 \<le> pos (ts ! j) - base" "pos (ts ! j) - base \<le> int (length src)"
  using assms by (auto simp: wfToks_def)

lemma wfToks_mono:
  assumes "wfToks base src ts" "j < k" "k < length ts"
  shows "pos (ts ! j) < pos (ts ! k)"
  using assms by (auto simp: wfToks_def sorted_wrt_iff_nth_less)

lemma lowOK_bounds:
  assumes "wfToks base src ts" "lowOK base ts i lo"
  shows "0 \<le> lo" "lo \<le> int (length src)"
  using assms wfToks_off [OF assms(1)] by (auto simp: lowOK_def)

lemma lowOK_marker:
  assumes wf: "wfToks base src ts" and lo: "lowOK base ts i lo" and m: "isMarker ts i"
    and i: "i < length ts"
  shows "lo \<le> pos (ts ! (i - 2)) - base"
proof (cases "lo = 0")
  case True
  then show ?thesis using wfToks_off(1) [OF wf, of "i - 2"] i by simp
next
  case False
  then obtain j where j: "j < i" "lo = pos (ts ! j) - base"
      "tok (ts ! j) = ASSIGN \<or> tok (ts ! j) = COMMA"
    using lo by (auto simp: lowOK_def)
  have i2: "2 \<le> i" "tok (ts ! (i - 2)) = COLON" "tok (ts ! (i - 1)) = IDENT"
    using m by (simp_all add: isMarker_def)
  have "j \<noteq> i - 1" "j \<noteq> i - 2" using j(3) i2 by auto
  then have "j < i - 2" using j(1) by linarith
  then have "pos (ts ! j) < pos (ts ! (i - 2))" using wfToks_mono [OF wf] i by simp
  then show ?thesis using j(2) by simp
qed

lemma encode_total:
  assumes "wfToks base src ts" "lowOK base ts i lo"
  shows "encode base src ts i lo \<noteq> None"
  using assms
proof (induction base src ts i lo rule: encode.induct)
  case (1 base src ts i lo)
  note b = lowOK_bounds [OF "1.prems"]
  show ?case
  proof (cases "length ts \<le> i")
    case True
    then show ?thesis using b by (simp add: encode.simps [of base src ts i] slice_def)
  next
    case False
    then have i: "i < length ts" by simp
    show ?thesis
    proof (cases "isMarker ts i")
      case m: True
      have i2: "2 \<le> i" "pos (ts ! (i - 2)) + 1 = pos (ts ! (i - 1))"
        using m by (simp_all add: isMarker_def)
      have c: "lo \<le> pos (ts ! (i - 2)) - base"
        using "1.prems" m i by (rule lowOK_marker)
      have c2: "pos (ts ! (i - 2)) - base \<le> int (length src)"
        using wfToks_off(2) [OF "1.prems"(1), of "i - 2"] i by simp
      have "pos (ts ! (i - 1)) < pos (ts ! i)"
        using wfToks_mono [OF "1.prems"(1), of "i - 1" i] i i2 by simp
      then have d: "pos (ts ! (i - 2)) - base + 1 \<le> pos (ts ! i) - base" using i2 by simp
      have d0: "0 \<le> pos (ts ! (i - 2)) - base + 1"
        using wfToks_off(1) [OF "1.prems"(1), of "i - 2"] i by simp
      have d2: "pos (ts ! i) - base \<le> int (length src)"
        using wfToks_off(2) [OF "1.prems"(1) i] .
      obtain s1 where s1: "slice src lo (pos (ts ! (i - 2)) - base) = Some s1"
        using b c c2 by (simp add: slice_def)
      obtain s2 where s2: "slice src (pos (ts ! (i - 2)) - base + 1) (pos (ts ! i) - base) = Some s2"
        using d d0 d2 by (simp add: slice_def)
      have l: "lowOK base ts (Suc i) (pos (ts ! i) - base)"
        using m i unfolding lowOK_def isMarker_def by blast
      have "encode base src ts (Suc i) (pos (ts ! i) - base) \<noteq> None"
        using False m s1 s2 "1.prems"(1) l by (rule "1.IH"(1))
      then show ?thesis
        using False m s1 s2 by (auto simp: encode.simps [of base src ts i])
    next
      case m: False
      have l: "lowOK base ts (Suc i) lo"
        using "1.prems"(2) by (auto simp: lowOK_def less_Suc_eq)
      have "encode base src ts (Suc i) lo \<noteq> None"
        using False m "1.prems"(1) l by (rule "1.IH"(2))
      then show ?thesis
        using False m by (simp add: encode.simps [of base src ts i])
    qed
  qed
qed

lemma winOK_0: "winOK ts 0 rewriter0"
  by (simp add: winOK_def rewriter0_def)

lemma rewriteTokens_encode:
  "rewriteTokens base fpos src toks =
     (case encode base src (liveToks toks) 0 0 of
        None \<Rightarrow> Inl SliceBounds
      | Some b \<Rightarrow> Inr (b, lexErrors fpos toks))"
proof -
  have f: "finish src (scanLoop base fpos src toks 0 rewriter0)
          = map_option (\<lambda>s. buf rewriter0 @ s) (encode base src (liveToks toks) 0 (low rewriter0))"
    by (rule scanLoop_encode) (simp_all add: winOK_0)
  have z: "buf rewriter0 = []" "low rewriter0 = 0" "errs rewriter0 = []"
    by (simp_all add: rewriter0_def)
  show ?thesis
  proof (cases "scanLoop base fpos src toks 0 rewriter0")
    case None
    then show ?thesis using f by (simp add: rewriteTokens_def finish_def z)
  next
    case (Some st)
    then have e: "errs st = lexErrors fpos toks"
      using scanLoop_elist [OF Some] by (simp add: z)
    show ?thesis
    proof (cases "encode base src (liveToks toks) 0 0")
      case None
      then show ?thesis
        using f Some by (auto simp: rewriteTokens_def finish_def z split: option.splits)
    next
      case b: (Some b)
      then show ?thesis
        using f Some e by (auto simp: rewriteTokens_def finish_def z split: option.splits)
    qed
  qed
qed

text \<open>
  Claim C5. The buffer that the loop of parseFile builds with its window of four
  tokens is the text \<open>encode\<close> describes: an identifier is encoded exactly where
  \<open>isMarker\<close> holds, that is at the sequence \<^verbatim>\<open>COLON IDENT\<close> followed by \<^verbatim>\<open>=\<close> or a
  comma, with the colon immediately before the identifier and the identifier not
  \<^verbatim>\<open>_\<close>; there the colon is replaced by a space and the tag \<^verbatim>\<open>GOOEY_COLON_\<close>, and a colon
  is written before the terminating \<^verbatim>\<open>=\<close> when the token three positions back is not
  a comma (\<open>fixesAssign\<close>). Both sides panic on the same inputs.
\<close>

theorem token_rewriter_encodes_markers:
  "map_sum id fst (rewriteTokens base fpos src toks) =
     (case encode base src (liveToks toks) 0 0 of
        None \<Rightarrow> Inl SliceBounds
      | Some b \<Rightarrow> Inr b)"
  by (simp add: rewriteTokens_encode split: option.splits)

text \<open>
  Claim C6. When the scanner returns the token \<^verbatim>\<open>:=\<close> anywhere before the end of the
  input, parseFile returns no tree and an error list that holds the error
  \<^verbatim>\<open>evil token: ":="\<close> at the position of every such token. The parser is not called.
\<close>

theorem reserved_operator_is_rejected:
  assumes "wfToks base src (liveToks toks)"
    and "\<exists>t \<in> set (liveToks toks). tok t = DEFINE"
  shows "\<exists>es. parseFile base fpos parser src toks = Inr (None, es)
           \<and> (\<forall>t \<in> set (liveToks toks). tok t = DEFINE
                  \<longrightarrow> \<lparr>Pos = fpos (pos t), Msg = evilMsg\<rparr> \<in> set es)"
proof -
  have "lowOK base (liveToks toks) 0 0" by (simp add: lowOK_def)
  then obtain b where b: "encode base src (liveToks toks) 0 0 = Some b"
    using encode_total [OF assms(1)] by blast
  have r: "rewriteTokens base fpos src toks = Inr (b, lexErrors fpos toks)"
    by (simp add: rewriteTokens_encode b)
  have m: "\<forall>t \<in> set (liveToks toks). tok t = DEFINE
                  \<longrightarrow> \<lparr>Pos = fpos (pos t), Msg = evilMsg\<rparr> \<in> set (lexErrors fpos toks)"
    using lexErrors_evil by blast
  then have "lexErrors fpos toks \<noteq> []" using assms(2) by auto
  then have "parseFile base fpos parser src toks = Inr (None, lexErrors fpos toks)"
    by (simp add: parseFile_def r)
  then show ?thesis using m by blast
qed


subsection \<open>Two inputs: \<^verbatim>\<open>:a = 1\<close> and \<^verbatim>\<open>a := 1\<close>\<close>

definition exFpos :: "int \<Rightarrow> position" where
  "exFpos p = \<lparr>Filename = ''x.goo'', Line = 1, Column = p\<rparr>"

definition exToksMarked :: "scanned list" where
  "exToksMarked =
     [([], \<lparr>pos = 1, tok = COLON, lit = []\<rparr>),
      ([], \<lparr>pos = 2, tok = IDENT, lit = ''a''\<rparr>),
      ([], \<lparr>pos = 4, tok = ASSIGN, lit = []\<rparr>),
      ([], \<lparr>pos = 6, tok = OtherTok ''INT'', lit = ''1''\<rparr>),
      ([], \<lparr>pos = 7, tok = OtherTok '';'', lit = [CHR 0x0A]\<rparr>)]"

definition exToksDefine :: "scanned list" where
  "exToksDefine =
     [([], \<lparr>pos = 1, tok = IDENT, lit = ''a''\<rparr>),
      ([], \<lparr>pos = 3, tok = DEFINE, lit = []\<rparr>),
      ([], \<lparr>pos = 6, tok = OtherTok ''INT'', lit = ''1''\<rparr>),
      ([], \<lparr>pos = 7, tok = OtherTok '';'', lit = [CHR 0x0A]\<rparr>)]"

theorem token_rewriter_encodes_markers_witness:
  "map_sum id fst (rewriteTokens 1 exFpos '':a = 1'' exToksMarked)
     = Inr '' GOOEY_COLON_a := 1''"
  using token_rewriter_encodes_markers [of 1 exFpos "'':a = 1''" exToksMarked]
  by (simp add: exToksMarked_def liveToks_def encode.simps isMarker_def fixesAssign_def
        slice_def cprefTag_def)

theorem reserved_operator_is_rejected_witness:
  "wfToks 1 ''a := 1'' (liveToks exToksDefine)
   \<and> (\<exists>t \<in> set (liveToks exToksDefine). tok t = DEFINE)
   \<and> (\<exists>es. parseFile 1 exFpos (\<lambda>b. (None, [])) ''a := 1'' exToksDefine = Inr (None, es)
          \<and> \<lparr>Pos = exFpos 3, Msg = evilMsg\<rparr> \<in> set es)"
proof -
  have w: "wfToks 1 ''a := 1'' (liveToks exToksDefine)"
    by (simp add: wfToks_def liveToks_def exToksDefine_def)
  have d: "\<exists>t \<in> set (liveToks exToksDefine). tok t = DEFINE"
    by (simp add: liveToks_def exToksDefine_def)
  have t: "\<lparr>pos = 3, tok = DEFINE, lit = []\<rparr> \<in> set (liveToks exToksDefine)"
    by (simp add: liveToks_def exToksDefine_def)
  show ?thesis
    using w d t reserved_operator_is_rejected [OF w d, of exFpos "\<lambda>b. (None, [])"]
    by fastforce
qed

section \<open>The declaration classifier\<close>

text \<open>The type assertion \<^verbatim>\<open>expr.(*ast.Ident)\<close>: the name of an identifier.\<close>

fun identName :: "node \<Rightarrow> string option" where
  "identName (Ident p name) = Some name"
| "identName n = None"

fun setName :: "string \<Rightarrow> node \<Rightarrow> node" where
  "setName name (Ident p old) = Ident p name"
| "setName name n = n"

text \<open>
  The body of the loop of processLhs for one expression (\<open>None\<close> is \<^verbatim>\<open>nil\<close>), on the
  counters, the kinds written so far and the expressions as the loop leaves them:
  \<^verbatim>\<open>ident.Name = ident.Name[1:]\<close> changes the identifier in place.
\<close>

definition processStep ::
  "node option \<Rightarrow> int \<times> int \<times> token list \<times> node option list
     \<Rightarrow> int \<times> int \<times> token list \<times> node option list"
where
  "processStep expr s =
     (case s of (decl, assign, kind, es) \<Rightarrow>
        (case expr of
           None \<Rightarrow> (decl, assign, kind @ [ILLEGAL], es @ [None])
         | Some e \<Rightarrow>
            (case identName e of
               None \<Rightarrow> (decl, assign + 1, kind @ [ASSIGN], es @ [Some e])
             | Some name \<Rightarrow>
                 if hasPrefix name '':'' then
                   (decl + 1, assign, kind @ [VAR], es @ [Some (setName (drop 1 name) e)])
                 else if name \<noteq> ''_'' then
                   (decl, assign + 1, kind @ [ASSIGN], es @ [Some e])
                 else (decl, assign, kind @ [ILLEGAL], es @ [Some e]))))"

definition processLhs ::
  "node option list \<Rightarrow> int \<times> int \<times> token list \<times> node option list"
where
  "processLhs lhs = fold processStep lhs (0, 0, [], [])"

section \<open>The statement transformer\<close>

text \<open>
  The structs \<^verbatim>\<open>change\<close>, \<^verbatim>\<open>xlate\<close> and \<^verbatim>\<open>visitor\<close>; the fields of \<^verbatim>\<open>change\<close> and of
  \<^verbatim>\<open>visitor\<close> are written with the prefixes \<open>c_\<close> and \<open>v_\<close>. A nil pointer is \<open>None\<close>, a
  nil slice \<^verbatim>\<open>kind\<close> is \<open>None\<close>. The file set is the function \<open>fp\<close> from a
  \<^verbatim>\<open>token.Pos\<close> to its position, a parameter of every function that reports an error.
\<close>

record change =
  c_assign :: addr
  c_kind :: "token list option"
  c_list :: "addr option"
  c_ptr :: "addr option"
  c_ref :: "addr option"

record xlate =
  clist :: "change list"
  elist :: "error list"

record visitor =
  v_comm :: "addr option"
  v_init :: bool
  v_list :: "addr option"
  v_ilabel :: "addr option"
  v_olabel :: "addr option"

definition xlate0 :: xlate where
  "xlate0 = \<lparr>clist = [], elist = []\<rparr>"

text \<open>\<^verbatim>\<open>&visitor{x: v.x}\<close>: every other field has its zero value.\<close>

definition visitor0 :: visitor where
  "visitor0 = \<lparr>v_comm = None, v_init = False, v_list = None, v_ilabel = None, v_olabel = None\<rparr>"

text \<open>
  The expressions of a left-hand side after processLhs has run on them: each one as
  processLhs left it.
\<close>

definition restore :: "node list \<Rightarrow> node option list \<Rightarrow> node list" where
  "restore lhs es = map2 (\<lambda>old new. case new of None \<Rightarrow> old | Some e \<Rightarrow> e) lhs es"

text \<open>
  \<^verbatim>\<open>a.Pos()\<close> is the position of \<^verbatim>\<open>a.Lhs[0]\<close>. assignStmt asks for it only when
  processLhs has counted an expression, so that the list is not empty.
\<close>

definition assignPos :: "node list \<Rightarrow> int" where
  "assignPos lhs = (case lhs of [] \<Rightarrow> 0 | e # es \<Rightarrow> exprPos e)"

definition mixedInitMsg :: string where
  "mixedInitMsg = ''mixed assignment in init statement''"

definition mixedRangeMsg :: string where
  "mixedRangeMsg = ''mixed assignment in range''"

definition colonMsg :: string where
  "colonMsg = ''unexpected colon-prefix''"

text \<open>
  assignStmt on the fields of the assignment at address \<open>a\<close>: the assignment and the
  state \<^verbatim>\<open>v.x\<close> as it leaves them.
\<close>

definition assignFields ::
  "(int \<Rightarrow> position) \<Rightarrow> visitor \<Rightarrow> addr \<Rightarrow> node list \<Rightarrow> token \<Rightarrow> node list \<Rightarrow> xlate
     \<Rightarrow> node \<times> xlate"
where
  "assignFields fp v a lhs t rhs x =
     (case processLhs (map Some lhs) of
        (decl, assign, kind, es) \<Rightarrow>
          (let lhs' = restore lhs es in
           if decl = 0 then (AssignStmt a lhs' t rhs, x)
           else if v_init v \<or> v_comm v = Some a then
             (if assign = 0 then (AssignStmt a lhs' DEFINE rhs, x)
              else
                (AssignStmt a lhs' t rhs,
                 x\<lparr>elist := elist x @ [\<lparr>Pos = fp (assignPos lhs'), Msg = mixedInitMsg\<rparr>]\<rparr>))
           else
             (let c = \<lparr>c_assign = a,
                       c_kind = (if assign > 0 then Some kind else None),
                       c_list = v_list v,
                       c_ptr = v_ilabel v,
                       c_ref = (if v_ilabel v \<noteq> None then v_olabel v else Some a)\<rparr>
              in (AssignStmt a lhs' t rhs, x\<lparr>clist := clist x @ [c]\<rparr>))))"

fun assignStmt :: "(int \<Rightarrow> position) \<Rightarrow> visitor \<Rightarrow> node \<Rightarrow> xlate \<Rightarrow> node \<times> xlate" where
  "assignStmt fp v (AssignStmt a lhs t rhs) x = assignFields fp v a lhs t rhs x"
| "assignStmt fp v n x = (n, x)"

definition ident :: "(int \<Rightarrow> position) \<Rightarrow> int \<Rightarrow> string \<Rightarrow> xlate \<Rightarrow> xlate" where
  "ident fp p name x =
     (if hasPrefix name '':'' then x\<lparr>elist := elist x @ [\<lparr>Pos = fp p, Msg = colonMsg\<rparr>]\<rparr>
      else x)"

text \<open>rangeStmt on the fields of the range statement; \<^verbatim>\<open>r.Pos()\<close> is \<open>p\<close>.\<close>

definition rangeFields ::
  "(int \<Rightarrow> position) \<Rightarrow> int \<Rightarrow> node option \<Rightarrow> node option \<Rightarrow> token \<Rightarrow> node \<Rightarrow> node \<Rightarrow> xlate
     \<Rightarrow> node \<times> xlate"
where
  "rangeFields fp p k v t e body x =
     (case processLhs [k, v] of
        (decl, assign, kind, es) \<Rightarrow>
          (let k' = (case es of k1 # r \<Rightarrow> k1 | [] \<Rightarrow> k);
               v' = (case es of k1 # v1 # r \<Rightarrow> v1 | _ \<Rightarrow> v)
           in
           if decl = 0 then (RangeStmt p k' v' t e body, x)
           else if assign = 0 then (RangeStmt p k' v' DEFINE e body, x)
           else
             (RangeStmt p k' v' t e body,
              x\<lparr>elist := elist x @ [\<lparr>Pos = fp p, Msg = mixedRangeMsg\<rparr>]\<rparr>)))"

fun rangeStmt :: "(int \<Rightarrow> position) \<Rightarrow> node \<Rightarrow> xlate \<Rightarrow> node \<times> xlate" where
  "rangeStmt fp (RangeStmt p k v t e body) x = rangeFields fp p k v t e body x"
| "rangeStmt fp n x = (n, x)"

text \<open>
  Visit on a node that is not nil: the node as Visit leaves it, the visitor \<open>v2\<close> it
  returns for the children, and the state.
\<close>

fun Visit ::
  "(int \<Rightarrow> position) \<Rightarrow> visitor \<Rightarrow> node \<Rightarrow> xlate \<Rightarrow> node \<times> visitor \<times> xlate"
where
  "Visit fp v (AssignStmt a lhs t rhs) x =
     (case assignStmt fp v (AssignStmt a lhs t rhs) x of (n', x') \<Rightarrow> (n', visitor0, x'))"
| "Visit fp v (BlockStmt a l) x = (BlockStmt a l, visitor0\<lparr>v_list := Some a\<rparr>, x)"
| "Visit fp v (CaseClause a es body) x = (CaseClause a es body, visitor0\<lparr>v_list := Some a\<rparr>, x)"
| "Visit fp v (CommClause a c body) x =
     (CommClause a c body,
      visitor0\<lparr>v_list := Some a, v_comm := (case c of None \<Rightarrow> None | Some s \<Rightarrow> addrOf s)\<rparr>, x)"
| "Visit fp v (Ident p name) x = (Ident p name, visitor0, ident fp p name x)"
| "Visit fp v (LabeledStmt a lab s) x =
     (LabeledStmt a lab s,
      visitor0\<lparr>v_list := v_list v, v_ilabel := Some a,
               v_olabel := (if v_olabel v \<noteq> None then v_olabel v else Some a)\<rparr>, x)"
| "Visit fp v (RangeStmt p k vl t e body) x =
     (case rangeStmt fp (RangeStmt p k vl t e body) x of (n', x') \<Rightarrow> (n', visitor0, x'))"
| "Visit fp v (ForStmt i c p body) x = (ForStmt i c p body, visitor0\<lparr>v_init := True\<rparr>, x)"
| "Visit fp v (IfStmt i c body e) x = (IfStmt i c body e, visitor0\<lparr>v_init := True\<rparr>, x)"
| "Visit fp v (SwitchStmt i t body) x = (SwitchStmt i t body, visitor0\<lparr>v_init := True\<rparr>, x)"
| "Visit fp v (TypeSwitchStmt i a body) x =
     (TypeSwitchStmt i a body, visitor0\<lparr>v_init := True\<rparr>, x)"
| "Visit fp v n x = (n, visitor0, x)"

text \<open>A function that changes a node and the state, along a list.\<close>

fun walkList :: "('n \<Rightarrow> 's \<Rightarrow> 'n \<times> 's) \<Rightarrow> 'n list \<Rightarrow> 's \<Rightarrow> 'n list \<times> 's" where
  "walkList f [] x = ([], x)"
| "walkList f (k # ks) x =
     (case f k x of (k', x1) \<Rightarrow> case walkList f ks x1 of (ks', x2) \<Rightarrow> (k' # ks', x2))"

lemma walkList_cong [fundef_cong]:
  "ks = ks' \<Longrightarrow> x = x' \<Longrightarrow> (\<And>k s. k \<in> set ks' \<Longrightarrow> f k s = g k s)
     \<Longrightarrow> walkList f ks x = walkList g ks' x'"
proof (induction ks' arbitrary: ks x x')
  case Nil
  then show ?case by simp
next
  case (Cons k ks')
  then show ?case by (auto split: prod.splits)
qed

section \<open>The classifier, position by position\<close>

text \<open>
  The kind of one position, as the specification words it: an absent expression and
  the discard placeholder are ignored (\<open>ILLEGAL\<close>), a colon-marked identifier is
  declared (\<open>VAR\<close>), every other expression is reassigned (\<open>ASSIGN\<close>).
\<close>

definition classify :: "node option \<Rightarrow> token" where
  "classify expr =
     (case expr of
        None \<Rightarrow> ILLEGAL
      | Some e \<Rightarrow>
         (case identName e of
            None \<Rightarrow> ASSIGN
          | Some name \<Rightarrow>
              if hasPrefix name '':'' then VAR
              else if name = ''_'' then ILLEGAL
              else ASSIGN))"

text \<open>The marker of a colon-marked identifier stripped from its name.\<close>

definition unmark :: "node option \<Rightarrow> node option" where
  "unmark expr =
     (case expr of
        None \<Rightarrow> None
      | Some e \<Rightarrow>
         (case identName e of
            None \<Rightarrow> Some e
          | Some name \<Rightarrow> if hasPrefix name '':'' then Some (setName (drop 1 name) e) else Some e))"

definition countTok :: "token \<Rightarrow> token list \<Rightarrow> int" where
  "countTok t ks = int (length (filter (\<lambda>k. k = t) ks))"

lemma processStep_eq:
  "processStep expr (decl, assign, kind, es) =
     (decl + countTok VAR [classify expr], assign + countTok ASSIGN [classify expr],
      kind @ [classify expr], es @ [unmark expr])"
  by (simp add: processStep_def classify_def unmark_def countTok_def
        split: option.splits)

lemma fold_processStep:
  "fold processStep lhs (decl, assign, kind, es) =
     (decl + countTok VAR (map classify lhs), assign + countTok ASSIGN (map classify lhs),
      kind @ map classify lhs, es @ map unmark lhs)"
proof (induction lhs arbitrary: decl assign kind es)
  case Nil
  then show ?case by (simp add: countTok_def)
next
  case (Cons e lhs)
  show ?case
    by (simp add: processStep_eq Cons.IH) (simp add: countTok_def)
qed

lemma processLhs_eq:
  "processLhs lhs =
     (countTok VAR (map classify lhs), countTok ASSIGN (map classify lhs),
      map classify lhs, map unmark lhs)"
  by (simp add: processLhs_def fold_processStep)

text \<open>
  Claim C4. processLhs classifies each position on its own: the kinds it returns are
  \<open>classify\<close> of each expression, the two counters are the numbers of \<open>VAR\<close> and of
  \<open>ASSIGN\<close> entries, and the only change to the expressions is that the name of a
  colon-marked identifier loses its colon (\<open>unmark\<close>).
\<close>

theorem processLhs_classifies_each_position:
  "processLhs lhs =
     (int (length (filter (\<lambda>k. k = VAR) (map classify lhs))),
      int (length (filter (\<lambda>k. k = ASSIGN) (map classify lhs))),
      map classify lhs,
      map unmark lhs)"
  using processLhs_eq [of lhs] by (simp add: countTok_def)

theorem processLhs_classifies_each_position_witness:
  "processLhs [None, Some (Ident 5 '':n''), Some (Ident 9 ''_''), Some (Ident 12 ''err''),
               Some (Other 17 [])]
     = (1, 2, [ILLEGAL, VAR, ILLEGAL, ASSIGN, ASSIGN],
        [None, Some (Ident 5 ''n''), Some (Ident 9 ''_''), Some (Ident 12 ''err''),
         Some (Other 17 [])])"
  using processLhs_classifies_each_position
          [of "[None, Some (Ident 5 '':n''), Some (Ident 9 ''_''), Some (Ident 12 ''err''),
               Some (Other 17 [])]"]
  by (simp add: classify_def unmark_def hasPrefix_def)

section \<open>The walk\<close>

text \<open>An expression of a left-hand side as processLhs leaves it.\<close>

definition unmarkNode :: "node \<Rightarrow> node" where
  "unmarkNode e =
     (case identName e of
        None \<Rightarrow> e
      | Some name \<Rightarrow> if hasPrefix name '':'' then setName (drop 1 name) e else e)"

lemma unmark_Some: "unmark (Some e) = Some (unmarkNode e)"
  by (simp add: unmark_def unmarkNode_def split: option.splits)

lemma restore_unmark: "restore lhs (map unmark (map Some lhs)) = map unmarkNode lhs"
  by (induction lhs) (simp_all add: restore_def unmark_Some)

lemma size_setName [simp]: "size (setName name e) = size e"
  by (cases e) auto

lemma kids_setName [simp]: "kids (setName name e) = kids e"
  by (cases e) auto

lemma size_unmarkNode [simp]: "size (unmarkNode e) = size e"
  by (simp add: unmarkNode_def split: option.splits)

lemma size_list_restore:
  "size_list size (restore lhs (map unmark (map Some lhs))) = size_list size lhs"
  unfolding restore_unmark by (induction lhs) auto

lemma size_assignStmt: "size (fst (assignStmt fp v n x)) = size n"
proof (cases n)
  case (AssignStmt a lhs t rhs)
  then show ?thesis
    by (simp add: assignFields_def processLhs_eq size_list_restore Let_def del: map_map)
qed simp_all

lemma size_unmark [simp]: "size_option size (unmark e) = size_option size e"
  by (auto simp: unmark_def split: option.splits)

lemma size_rangeStmt: "size (fst (rangeStmt fp n x)) = size n"
proof (cases n)
  case (RangeStmt p k v t e body)
  then show ?thesis
    by (simp add: rangeFields_def processLhs_eq Let_def)
qed simp_all

lemma size_Visit: "size (fst (Visit fp v n x)) = size n"
proof (cases n)
  case (AssignStmt a lhs t rhs)
  then show ?thesis
    using size_assignStmt [of fp v n x] by (simp add: case_prod_unfold)
next
  case (RangeStmt p k vl t e body)
  then show ?thesis
    using size_rangeStmt [of fp n x] by (simp add: case_prod_unfold)
qed simp_all

text \<open>
  \<^verbatim>\<open>ast.Walk\<close>: Visit at the node, then the walk of each child, in order, with the
  visitor that Visit returned. The children are read after Visit has run. The result
  is the tree and the state as the walk leaves them.
\<close>

function Walk :: "(int \<Rightarrow> position) \<Rightarrow> visitor \<Rightarrow> node \<Rightarrow> xlate \<Rightarrow> node \<times> xlate" where
  "Walk fp v n x =
     (case Visit fp v n x of
        (n1, v2, x1) \<Rightarrow>
          (case walkList (Walk fp v2) (kids n1) x1 of
             (ks, x2) \<Rightarrow> (withKids n1 ks, x2)))"
  by pat_completeness auto
termination
proof (relation "measure (\<lambda>(fp, v, n, x). size n)", goal_cases)
  case 1
  show ?case by simp
next
  case (2 fp v n x n1 y v2 x1 k s)
  have "n1 = fst (Visit fp v n x)" using 2(1) by (metis fst_conv)
  then have "size n1 = size n" by (simp add: size_Visit)
  then show ?case using kids_size [OF 2(3)] by simp
qed

declare Walk.simps [simp del]

section \<open>The tree as the store\<close>

text \<open>
  A change holds pointers into the tree. Reading through a pointer finds the node with
  that address in the tree; writing through it replaces that node. \<open>getAt\<close> and
  \<open>updAt\<close> search the tree parents first and children in order.
\<close>

fun firstSome :: "'a option list \<Rightarrow> 'a option" where
  "firstSome [] = None"
| "firstSome (x # xs) = (case x of None \<Rightarrow> firstSome xs | Some y \<Rightarrow> Some y)"

function getAt :: "addr \<Rightarrow> node \<Rightarrow> node option" where
  "getAt a n = (if addrOf n = Some a then Some n else firstSome (map (getAt a) (kids n)))"
  by pat_completeness auto
termination
  by (relation "measure (\<lambda>(a, n). size n)") (auto simp: kids_size)

function updAt :: "addr \<Rightarrow> (node \<Rightarrow> node) \<Rightarrow> node \<Rightarrow> node" where
  "updAt a f n = (if addrOf n = Some a then f n else withKids n (map (updAt a f) (kids n)))"
  by pat_completeness auto
termination
  by (relation "measure (\<lambda>(a, f, n). size n)") (auto simp: kids_size)

declare getAt.simps [simp del]
declare updAt.simps [simp del]

text \<open>
  Every address of the tree, parents first, and an address above them all: what the
  allocator returns for the first node made after parsing.
\<close>

function addrs :: "node \<Rightarrow> addr list" where
  "addrs n = opt (addrOf n) @ concat (map addrs (kids n))"
  by pat_completeness auto
termination
  by (relation "measure size") (auto simp: kids_size)

declare addrs.simps [simp del]

definition newAddr :: "node \<Rightarrow> addr" where
  "newAddr root = Suc (fold max (addrs root) 0)"

text \<open>The statement list that a pointer \<^verbatim>\<open>&n.List\<close> or \<^verbatim>\<open>&n.Body\<close> points to.\<close>

fun stmtsOf :: "node \<Rightarrow> node list option" where
  "stmtsOf (BlockStmt a l) = Some l"
| "stmtsOf (CaseClause a es body) = Some body"
| "stmtsOf (CommClause a c body) = Some body"
| "stmtsOf n = None"

fun setStmts :: "node list \<Rightarrow> node \<Rightarrow> node" where
  "setStmts l (BlockStmt a old) = BlockStmt a l"
| "setStmts l (CaseClause a es old) = CaseClause a es l"
| "setStmts l (CommClause a c old) = CommClause a c l"
| "setStmts l n = n"

text \<open>\<^verbatim>\<open>*c.list\<close>: a nil pointer panics.\<close>

definition derefList :: "addr option \<Rightarrow> node \<Rightarrow> panic + node list" where
  "derefList l root =
     (case l of
        None \<Rightarrow> Inl NilDereference
      | Some lid \<Rightarrow>
         (case getAt lid root of
            None \<Rightarrow> Inl Dangling
          | Some n \<Rightarrow> (case stmtsOf n of None \<Rightarrow> Inl Dangling | Some stmts \<Rightarrow> Inr stmts)))"

text \<open>The fields \<^verbatim>\<open>Lhs\<close>, \<^verbatim>\<open>Tok\<close> and \<^verbatim>\<open>Rhs\<close> of the assignment \<^verbatim>\<open>c.assign\<close>.\<close>

fun fieldsOf :: "node \<Rightarrow> (node list \<times> token \<times> node list) option" where
  "fieldsOf (AssignStmt a lhs t rhs) = Some (lhs, t, rhs)"
| "fieldsOf n = None"

definition derefAssign :: "addr \<Rightarrow> node \<Rightarrow> (node list \<times> token \<times> node list) option" where
  "derefAssign a root = (case getAt a root of None \<Rightarrow> None | Some n \<Rightarrow> fieldsOf n)"

fun setLhsTok :: "node list \<Rightarrow> token \<Rightarrow> node \<Rightarrow> node" where
  "setLhsTok lhs t (AssignStmt a old told rhs) = AssignStmt a lhs t rhs"
| "setLhsTok lhs t n = n"

text \<open>\<^verbatim>\<open>*c.ptr = decl\<close>, where \<^verbatim>\<open>c.ptr\<close> is \<^verbatim>\<open>&label.Stmt\<close>.\<close>

fun setLabeled :: "node \<Rightarrow> node \<Rightarrow> node" where
  "setLabeled s (LabeledStmt a lab old) = LabeledStmt a lab s"
| "setLabeled s n = n"

fun isLabeled :: "node \<Rightarrow> bool" where
  "isLabeled (LabeledStmt a lab s) = True"
| "isLabeled n = False"

section \<open>The change application engine\<close>

definition makeDecl :: "node list \<Rightarrow> node list \<Rightarrow> node" where
  "makeDecl names vals = DeclStmt VAR names vals"

text \<open>
  indexStmt: the first index of the list whose statement is the one \<^verbatim>\<open>stmt\<close> points
  to; \<open>None\<close> is the panic.
\<close>

fun indexStmt :: "node list \<Rightarrow> addr option \<Rightarrow> nat option" where
  "indexStmt [] stmt = None"
| "indexStmt (v # vs) stmt =
     (if stmt \<noteq> None \<and> addrOf v = stmt then Some 0 else map_option Suc (indexStmt vs stmt))"

fun isIdent :: "node \<Rightarrow> bool" where
  "isIdent (Ident p name) = True"
| "isIdent n = False"

text \<open>
  applyNonMixed. A write through a pointer to a node that the tree does not hold
  cannot be followed in the tree and ends as \<open>Dangling\<close>.
\<close>

definition applyNonMixed :: "change \<Rightarrow> node \<Rightarrow> panic + node" where
  "applyNonMixed c root =
     (case derefAssign (c_assign c) root of
        None \<Rightarrow> Inl Dangling
      | Some (lhs, t, rhs) \<Rightarrow>
          if \<not> list_all isIdent lhs then Inl TypeAssertion
          else
            (let decl = makeDecl lhs rhs in
             case c_ptr c of
               Some l \<Rightarrow>
                 (case getAt l root of
                    None \<Rightarrow> Inl Dangling
                  | Some lab \<Rightarrow>
                      if isLabeled lab then Inr (updAt l (setLabeled decl) root)
                      else Inl Dangling)
             | None \<Rightarrow>
                 (case derefList (c_list c) root of
                    Inl p \<Rightarrow> Inl p
                  | Inr stmts \<Rightarrow>
                     (case indexStmt stmts (Some (c_assign c)) of
                        None \<Rightarrow> Inl IndexStmt
                      | Some i \<Rightarrow>
                          (case c_list c of
                             None \<Rightarrow> Inl NilDereference
                           | Some lid \<Rightarrow>
                               Inr (updAt lid (setStmts (stmts[i := decl])) root))))))"

text \<open>\<^verbatim>\<open>strconv.Itoa\<close> of a counter that is not negative.\<close>

definition digit :: "nat \<Rightarrow> char" where
  "digit d = ''0123456789'' ! d"

function itoa :: "nat \<Rightarrow> string" where
  "itoa n = (if n < 10 then [digit n] else itoa (n div 10) @ [digit (n mod 10)])"
  by pat_completeness auto
termination
  by (relation "measure id") auto

declare itoa.simps [simp del]

text \<open>
  The loop of applyMixed over the old left-hand side, with the kinds of the change,
  the counter \<^verbatim>\<open>*tc\<close> and the next free address \<open>nx\<close>, from which the new
  assignment statements are allocated: the new left-hand side, the statements
  \<^verbatim>\<open>after\<close>, the counter and the next free address. \<^verbatim>\<open>c.kind[i]\<close> panics past the end
  of the kinds.
\<close>

definition newTemp :: "nat \<Rightarrow> node" where
  "newTemp tc = Ident 0 (tempTag @ itoa tc)"

fun mixedLoop ::
  "token list \<Rightarrow> node list \<Rightarrow> nat \<Rightarrow> addr
     \<Rightarrow> panic + (node list \<times> node list \<times> nat \<times> addr)"
where
  "mixedLoop ks [] tc nx = Inr ([], [], tc, nx)"
| "mixedLoop [] (e # es) tc nx = Inl IndexRange"
| "mixedLoop (k # ks) (e # es) tc nx =
     (if k = ILLEGAL then
        (case mixedLoop ks es tc nx of
           Inl p \<Rightarrow> Inl p
         | Inr (lhs, after, r) \<Rightarrow> Inr (e # lhs, after, r))
      else if k = VAR then
        (if isIdent e then
           (case mixedLoop ks es (Suc tc) nx of
              Inl p \<Rightarrow> Inl p
            | Inr (lhs, after, r) \<Rightarrow>
                Inr (newTemp tc # lhs, makeDecl [e] [newTemp tc] # after, r))
         else Inl TypeAssertion)
      else
        (case mixedLoop ks es (Suc tc) (Suc nx) of
           Inl p \<Rightarrow> Inl p
         | Inr (lhs, after, r) \<Rightarrow>
             Inr (newTemp tc # lhs, AssignStmt nx [e] ASSIGN [newTemp tc] # after, r)))"

text \<open>
  applyMixed: the tree, the counter and the next free address as it leaves them.
\<close>

definition applyMixed :: "change \<Rightarrow> nat \<Rightarrow> addr \<Rightarrow> node \<Rightarrow> panic + (node \<times> nat \<times> addr)" where
  "applyMixed c tc nx root =
     (case derefAssign (c_assign c) root of
        None \<Rightarrow> Inl Dangling
      | Some (lhs, t, rhs) \<Rightarrow>
         (case mixedLoop (case c_kind c of None \<Rightarrow> [] | Some ks \<Rightarrow> ks) lhs tc nx of
            Inl p \<Rightarrow> Inl p
          | Inr (lhs', after, tc', nx') \<Rightarrow>
             (let root1 = updAt (c_assign c) (setLhsTok lhs' DEFINE) root in
              case derefList (c_list c) root1 of
                Inl p \<Rightarrow> Inl p
              | Inr stmts \<Rightarrow>
                 (case indexStmt stmts (c_ref c) of
                    None \<Rightarrow> Inl IndexStmt
                  | Some i \<Rightarrow>
                     (case c_list c of
                        None \<Rightarrow> Inl NilDereference
                      | Some lid \<Rightarrow>
                          Inr (updAt lid
                                 (setStmts (take (Suc i) stmts @ after @ drop (Suc i) stmts))
                                 root1,
                               tc', nx'))))))"

text \<open>\<^verbatim>\<open>change.apply\<close>.\<close>

definition applyChange :: "change \<Rightarrow> nat \<Rightarrow> addr \<Rightarrow> node \<Rightarrow> panic + (node \<times> nat \<times> addr)" where
  "applyChange c tc nx root =
     (if c_kind c = None then
        (case applyNonMixed c root of Inl p \<Rightarrow> Inl p | Inr root' \<Rightarrow> Inr (root', tc, nx))
      else applyMixed c tc nx root)"

text \<open>The loop \<^verbatim>\<open>for _, c := range x.clist\<close> of xlateFile.\<close>

fun applyAll :: "change list \<Rightarrow> nat \<Rightarrow> addr \<Rightarrow> node \<Rightarrow> panic + (node \<times> nat \<times> addr)" where
  "applyAll [] tc nx root = Inr (root, tc, nx)"
| "applyAll (c # cs) tc nx root =
     (case applyChange c tc nx root of
        Inl p \<Rightarrow> Inl p
      | Inr (root', tc', nx') \<Rightarrow> applyAll cs tc' nx' root')"

text \<open>
  xlateFile: the file as it leaves it and the error it returns, \<open>[]\<close> for \<^verbatim>\<open>nil\<close>; or
  the panic. The changes allocate from the first address above those of the tree.
\<close>

definition xlateFile :: "(int \<Rightarrow> position) \<Rightarrow> node \<Rightarrow> panic + (node \<times> error list)" where
  "xlateFile fp file =
     (case Walk fp visitor0 file xlate0 of
        (file1, x) \<Rightarrow>
          if elist x \<noteq> [] then Inr (file1, sortErrors (elist x))
          else
            (case applyAll (clist x) 0 (newAddr file1) file1 of
               Inl p \<Rightarrow> Inl p
             | Inr (file2, r) \<Rightarrow> Inr (file2, [])))"

section \<open>The transformer on a single construct; trees without markers\<close>

lemma countTok_zero: "countTok t ks = 0 \<longleftrightarrow> t \<notin> set ks"
  by (auto simp: countTok_def filter_empty_conv)

lemma countTok_pos: "0 < countTok t ks \<longleftrightarrow> t \<in> set ks"
  using countTok_zero [of t ks] by (auto simp: countTok_def)

lemma unmarkNode_id: "classify (Some e) \<noteq> VAR \<Longrightarrow> unmarkNode e = e"
  by (auto simp: classify_def unmarkNode_def split: option.splits if_splits)

lemma unmark_id: "classify e \<noteq> VAR \<Longrightarrow> unmark e = e"
  by (auto simp: classify_def unmark_def split: option.splits if_splits)

lemma map_unmarkNode_id:
  assumes "VAR \<notin> set (map classify (map Some lhs))"
  shows "map unmarkNode lhs = lhs"
  using assms by (induction lhs) (auto simp: unmarkNode_id)

text \<open>assignStmt and rangeStmt with the result of processLhs written out.\<close>

lemma assignFields_eq:
  "assignFields fp v a lhs t rhs x =
     (if countTok VAR (map classify (map Some lhs)) = 0 then (AssignStmt a lhs t rhs, x)
      else if v_init v \<or> v_comm v = Some a then
        (if countTok ASSIGN (map classify (map Some lhs)) = 0
         then (AssignStmt a (map unmarkNode lhs) DEFINE rhs, x)
         else (AssignStmt a (map unmarkNode lhs) t rhs,
               x\<lparr>elist := elist x @ [\<lparr>Pos = fp (assignPos (map unmarkNode lhs)), Msg = mixedInitMsg\<rparr>]\<rparr>))
      else
        (AssignStmt a (map unmarkNode lhs) t rhs,
         x\<lparr>clist := clist x @
              [\<lparr>c_assign = a,
                c_kind = (if countTok ASSIGN (map classify (map Some lhs)) > 0
                          then Some (map classify (map Some lhs)) else None),
                c_list = v_list v, c_ptr = v_ilabel v,
                c_ref = (if v_ilabel v \<noteq> None then v_olabel v else Some a)\<rparr>]\<rparr>))"
proof (cases "countTok VAR (map classify (map Some lhs)) = 0")
  case True
  then have "map unmarkNode lhs = lhs"
    by (simp add: countTok_zero map_unmarkNode_id del: map_map)
  then show ?thesis
    using True by (simp add: assignFields_def processLhs_eq restore_unmark Let_def del: map_map)
next
  case False
  then show ?thesis
    by (simp add: assignFields_def processLhs_eq restore_unmark Let_def del: map_map)
qed

lemma rangeFields_eq:
  "rangeFields fp p k v t e body x =
     (if countTok VAR [classify k, classify v] = 0 then (RangeStmt p k v t e body, x)
      else if countTok ASSIGN [classify k, classify v] = 0
      then (RangeStmt p (unmark k) (unmark v) DEFINE e body, x)
      else (RangeStmt p (unmark k) (unmark v) t e body,
            x\<lparr>elist := elist x @ [\<lparr>Pos = fp p, Msg = mixedRangeMsg\<rparr>]\<rparr>))"
proof (cases "countTok VAR [classify k, classify v] = 0")
  case True
  then have "unmark k = k" "unmark v = v"
    by (auto simp: countTok_zero intro!: unmark_id)
  then show ?thesis
    using True by (simp add: rangeFields_def processLhs_eq Let_def)
next
  case False
  then show ?thesis
    by (simp add: rangeFields_def processLhs_eq Let_def)
qed

lemma exprPos_unmarkNode [simp]: "exprPos (unmarkNode e) = exprPos e"
  by (cases e) (auto simp: unmarkNode_def)

lemma assignPos_unmark [simp]: "assignPos (map unmarkNode lhs) = assignPos lhs"
  by (cases lhs) (auto simp: assignPos_def)


text \<open>No identifier of the tree has a name that begins with a colon.\<close>

function noColon :: "node \<Rightarrow> bool" where
  "noColon n =
     ((case identName n of None \<Rightarrow> True | Some name \<Rightarrow> \<not> hasPrefix name '':'')
      \<and> list_all noColon (kids n))"
  by pat_completeness auto
termination
  by (relation "measure size") (auto simp: kids_size)

declare noColon.simps [simp del]

lemma node_induct [case_names node]:
  assumes "\<And>n. (\<And>k. k \<in> set (kids n) \<Longrightarrow> P k) \<Longrightarrow> P n"
  shows "P n"
proof (induction n rule: measure_induct_rule [of size])
  case (less n)
  show ?case by (rule assms) (simp add: less kids_size)
qed

lemma walkList_id:
  assumes "\<And>k s. k \<in> set ks \<Longrightarrow> f k s = (k, s)"
  shows "walkList f ks x = (ks, x)"
  using assms by (induction ks arbitrary: x) auto

lemma fill_opt: "fill c (opt c @ r) = (c, r)"
  by (cases c) (auto simp: fill_def opt_def)

lemma fill_opt_Nil: "fill c (opt c) = (c, [])"
  by (cases c) (auto simp: fill_def opt_def)

lemma one_Cons: "one y (k # r) = (k, r)"
  by (simp add: one_def)

lemma withKids_kids [simp]: "withKids n (kids n) = n"
  by (cases n) (simp_all add: fill_opt fill_opt_Nil one_Cons)

lemma noColon_kids: "noColon n \<Longrightarrow> k \<in> set (kids n) \<Longrightarrow> noColon k"
  by (subst (asm) noColon.simps) (auto simp: list_all_iff)

lemma noColon_classify:
  assumes "noColon n" "e \<in> set (kids n)"
  shows "classify (Some e) \<noteq> VAR"
proof -
  have "noColon e" using assms by (rule noColon_kids)
  then show ?thesis
    by (subst (asm) noColon.simps) (auto simp: classify_def split: option.splits)
qed

lemma noColon_classify_opt:
  assumes "noColon n" "set (opt e) \<subseteq> set (kids n)"
  shows "classify e \<noteq> VAR"
proof (cases e)
  case None
  then show ?thesis by (simp add: classify_def)
next
  case (Some e')
  then show ?thesis using noColon_classify [OF assms(1), of e'] assms(2) by (simp add: opt_def)
qed

lemma Visit_noColon:
  assumes "noColon n"
  shows "Visit fp v n x = (n, fst (snd (Visit fp v n x)), x)"
proof (cases n)
  case (AssignStmt a lhs t rhs)
  have "\<And>e. e \<in> set lhs \<Longrightarrow> VAR \<noteq> classify (Some e)"
    using noColon_classify [OF assms] AssignStmt by fastforce
  then have "VAR \<notin> set (map classify (map Some lhs))"
    by auto
  then show ?thesis
    using AssignStmt by (simp add: assignFields_eq countTok_zero del: map_map)
next
  case (RangeStmt p k vl t e body)
  have "classify k \<noteq> VAR" "classify vl \<noteq> VAR"
    using noColon_classify_opt [OF assms] RangeStmt by auto
  then show ?thesis
    using RangeStmt by (auto simp: rangeFields_eq countTok_zero)
next
  case (Ident p name)
  then show ?thesis
    using assms by (subst (asm) noColon.simps) (simp add: ident_def)
qed simp_all

lemma Walk_noColon:
  assumes "noColon n"
  shows "Walk fp v n x = (n, x)"
  using assms
proof (induction n arbitrary: v x rule: node_induct)
  case (node n)
  obtain v2 where V: "Visit fp v n x = (n, v2, x)"
    using Visit_noColon [OF node.prems] by blast
  have "walkList (Walk fp v2) (kids n) x = (kids n, x)"
    by (rule walkList_id) (simp add: node.IH noColon_kids [OF node.prems])
  then show ?case by (simp add: Walk.simps [of fp v n x] V)
qed

lemma xlateFile_noColon:
  assumes "noColon file"
  shows "xlateFile fp file = Inr (file, [])"
  by (simp add: xlateFile_def Walk_noColon [OF assms] xlate0_def)


lemma kids_withKids: "length ks = length (kids n) \<Longrightarrow> kids (withKids n ks) = ks"
  by (cases n)
     (auto simp: fill_def one_def opt_def length_Suc_conv split: option.splits list.splits)

lemma addrOf_withKids [simp]: "addrOf (withKids n ks) = addrOf n"
  by (cases n) (auto split: prod.splits)

lemma identName_withKids [simp]: "identName (withKids n ks) = identName n"
  by (cases n) (auto split: prod.splits)

text \<open>No identifier of the tree has a name that begins with the tag \<^verbatim>\<open>GOOEY_COLON_\<close>.\<close>

function noTag :: "node \<Rightarrow> bool" where
  "noTag n =
     ((case identName n of None \<Rightarrow> True | Some name \<Rightarrow> \<not> hasPrefix name cprefTag)
      \<and> list_all noTag (kids n))"
  by pat_completeness auto
termination
  by (relation "measure size") (auto simp: kids_size)

declare noTag.simps [simp del]

lemma identName_revert1:
  "identName (revert1 n) =
     (case identName n of None \<Rightarrow> None
      | Some name \<Rightarrow> Some (if hasPrefix name cprefTag then '':'' @ drop (length cprefTag) name else name))"
  by (cases n) auto

lemma noColon_revert:
  assumes "noColon n" "noTag n"
  shows "noColon (revert n)"
  using assms
proof (induction n rule: node_induct)
  case (node n)
  have k: "\<And>k. k \<in> set (kids n) \<Longrightarrow> noColon (revert k)"
    using node.IH node.prems noColon_kids [OF node.prems(1)]
    by (subst (asm) (2) noTag.simps) (auto simp: list_all_iff)
  have i: "case identName n of None \<Rightarrow> True | Some name \<Rightarrow> \<not> hasPrefix name '':'' \<and> \<not> hasPrefix name cprefTag"
    using node.prems
    by (subst (asm) noColon.simps, subst (asm) noTag.simps) (auto split: option.splits)
  have kw: "kids (withKids (revert1 n) (map revert (kids n))) = map revert (kids n)"
    by (rule kids_withKids) (simp add: kids_revert1)
  show ?case
    using k i
    by (subst revert.simps, subst noColon.simps)
       (auto simp: kw kids_revert1 identName_revert1 list_all_iff split: option.splits)
qed

lemma encode_no_marker:
  assumes "\<And>j. j < length ts \<Longrightarrow> \<not> isMarker ts j" "0 \<le> lo" "lo \<le> int (length src)"
  shows "encode base src ts i lo = Some (drop (nat lo) src)"
  using assms
proof (induction base src ts i lo rule: encode.induct)
  case (1 base src ts i lo)
  show ?case
  proof (cases "length ts \<le> i")
    case True
    then show ?thesis
      using "1.prems" by (simp add: encode.simps [of base src ts i] slice_def)
  next
    case False
    then show ?thesis
      using "1.prems" "1.IH"(2) by (simp add: encode.simps [of base src ts i])
  qed
qed

definition exFile :: node where
  "exFile =
     Other 1
       [Ident 9 ''main'',
        BlockStmt 1
          [AssignStmt 2 [Ident 20 ''n'', Ident 23 ''err''] ASSIGN [Other 29 [Ident 29 ''f'']],
           RangeStmt 40 (Some (Ident 44 ''_'')) (Some (Ident 47 ''v'')) ASSIGN (Ident 57 ''xs'')
             (BlockStmt 3 [])]]"

text \<open>
  Claim C2. A tree without a colon-prefixed identifier is returned by xlateFile as it
  was, with no error; and assignStmt and rangeStmt leave the construct and the state
  (the changes and the errors) as they were when processLhs counts no declaration.
\<close>

theorem unmarked_tree_is_unchanged:
  "((\<forall>j < length (liveToks toks). \<not> isMarker (liveToks toks) j)
        \<longrightarrow> map_sum id fst (rewriteTokens base fpos src toks) = Inr src)
   \<and> (noColon tree \<and> noTag tree \<longrightarrow> xlateFile fp (revert tree) = Inr (revert tree, []))
   \<and> (noColon root \<longrightarrow> xlateFile fp root = Inr (root, []))
   \<and> (fst (processLhs (map Some lhs)) = 0
        \<longrightarrow> assignStmt fp v (AssignStmt a lhs t rhs) x = (AssignStmt a lhs t rhs, x))
   \<and> (fst (processLhs [k, vl]) = 0
        \<longrightarrow> rangeStmt fp (RangeStmt p k vl rt e body) x = (RangeStmt p k vl rt e body, x))"
proof -
  have "map_sum id fst (rewriteTokens base fpos src toks) = Inr src"
    if "\<forall>j < length (liveToks toks). \<not> isMarker (liveToks toks) j"
    using that encode_no_marker [of "liveToks toks" 0 src base 0]
    by (simp add: rewriteTokens_encode)
  moreover have "xlateFile fp (revert tree) = Inr (revert tree, [])" if "noColon tree \<and> noTag tree"
    using that by (simp add: xlateFile_noColon noColon_revert)
  ultimately show ?thesis
    by (simp add: xlateFile_noColon assignFields_eq rangeFields_eq processLhs_eq del: map_map)
qed

definition exToksPlain :: "scanned list" where
  "exToksPlain =
     [([], \<lparr>pos = 1, tok = IDENT, lit = ''n''\<rparr>),
      ([], \<lparr>pos = 3, tok = ASSIGN, lit = []\<rparr>),
      ([], \<lparr>pos = 5, tok = OtherTok ''INT'', lit = ''1''\<rparr>),
      ([], \<lparr>pos = 6, tok = OtherTok '';'', lit = [CHR 0x0A]\<rparr>)]"

theorem unmarked_tree_is_unchanged_witness:
  "\<not> (\<exists>j < length (liveToks exToksPlain). isMarker (liveToks exToksPlain) j)
   \<and> map_sum id fst (rewriteTokens 1 exFpos ''n = 1'' exToksPlain) = Inr ''n = 1''
   \<and> noColon exFile \<and> noTag exFile
   \<and> xlateFile exFpos (revert exFile) = Inr (revert exFile, [])
   \<and> xlateFile exFpos exFile = Inr (exFile, [])
   \<and> fst (processLhs (map Some [Ident 20 ''n'', Ident 23 ''err''])) = 0
   \<and> assignStmt exFpos visitor0
        (AssignStmt 2 [Ident 20 ''n'', Ident 23 ''err''] ASSIGN [Other 29 [Ident 29 ''f'']]) xlate0
       = (AssignStmt 2 [Ident 20 ''n'', Ident 23 ''err''] ASSIGN [Other 29 [Ident 29 ''f'']], xlate0)
   \<and> fst (processLhs [Some (Ident 44 ''_''), Some (Ident 47 ''v'')]) = 0
   \<and> rangeStmt exFpos
        (RangeStmt 40 (Some (Ident 44 ''_'')) (Some (Ident 47 ''v'')) ASSIGN (Ident 57 ''xs'')
           (BlockStmt 3 [])) xlate0
       = (RangeStmt 40 (Some (Ident 44 ''_'')) (Some (Ident 47 ''v'')) ASSIGN (Ident 57 ''xs'')
           (BlockStmt 3 []), xlate0)"
proof -
  have m: "\<forall>j < length (liveToks exToksPlain). \<not> isMarker (liveToks exToksPlain) j"
    by (simp add: liveToks_def exToksPlain_def isMarker_def numeral_eq_Suc less_Suc_eq)
  have n: "noColon exFile"
    by (simp add: exFile_def noColon.simps hasPrefix_def opt_def)
  have g: "noTag exFile"
    by (simp add: exFile_def noTag.simps hasPrefix_def opt_def cprefTag_def)
  have a: "fst (processLhs (map Some [Ident 20 ''n'', Ident 23 ''err''])) = 0"
    by (simp add: processLhs_eq countTok_def classify_def hasPrefix_def)
  have r: "fst (processLhs [Some (Ident 44 ''_''), Some (Ident 47 ''v'')]) = 0"
    by (simp add: processLhs_eq countTok_def classify_def hasPrefix_def)
  show ?thesis
    using m n g a r
      unmarked_tree_is_unchanged
        [where toks = exToksPlain and base = 1 and fpos = exFpos and src = "''n = 1''"
           and tree = exFile and fp = exFpos and root = exFile
           and lhs = "[Ident 20 ''n'', Ident 23 ''err'']" and v = visitor0 and a = 2
           and t = ASSIGN and rhs = "[Other 29 [Ident 29 ''f'']]" and x = xlate0
           and k = "Some (Ident 44 ''_'')" and vl = "Some (Ident 47 ''v'')"
           and p = 40 and rt = ASSIGN and e = "Ident 57 ''xs''" and body = "BlockStmt 3 []"]
    by simp
qed



section \<open>The mixed change\<close>

text \<open>
  The number of positions before \<open>j\<close> that are not ignored, and the number of those
  that are reassigned.
\<close>

definition live :: "token list \<Rightarrow> nat \<Rightarrow> nat" where
  "live ks j = length (filter (\<lambda>k. k \<noteq> ILLEGAL) (take j ks))"

definition reassigned :: "token list \<Rightarrow> nat \<Rightarrow> nat" where
  "reassigned ks j = length (filter (\<lambda>k. k \<noteq> ILLEGAL \<and> k \<noteq> VAR) (take j ks))"

text \<open>
  The left-hand side and the statements that the specification asks of a mixed
  change: a temporary in place of every target that is not ignored, named by the
  counter in the order of the targets; then, for each such target in order, the
  declaration of its name from its temporary where it is declared and the assignment
  of the temporary to it where it is reassigned.
\<close>

definition newLhs :: "token list \<Rightarrow> node list \<Rightarrow> nat \<Rightarrow> node list" where
  "newLhs ks es tc =
     map (\<lambda>j. if ks ! j = ILLEGAL then es ! j else newTemp (tc + live ks j)) [0..<length es]"

definition afterStmts :: "token list \<Rightarrow> node list \<Rightarrow> nat \<Rightarrow> addr \<Rightarrow> node list" where
  "afterStmts ks es tc nx =
     map (\<lambda>j. if ks ! j = VAR then makeDecl [es ! j] [newTemp (tc + live ks j)]
              else AssignStmt (nx + reassigned ks j) [es ! j] ASSIGN [newTemp (tc + live ks j)])
         (filter (\<lambda>j. ks ! j \<noteq> ILLEGAL) [0..<length es])"

lemma live_0 [simp]: "live ks 0 = 0"
  by (simp add: live_def)

lemma reassigned_0 [simp]: "reassigned ks 0 = 0"
  by (simp add: reassigned_def)

lemma live_Cons: "live (k # ks) (Suc j) = (if k \<noteq> ILLEGAL then 1 else 0) + live ks j"
  by (simp add: live_def)

lemma reassigned_Cons:
  "reassigned (k # ks) (Suc j) = (if k \<noteq> ILLEGAL \<and> k \<noteq> VAR then 1 else 0) + reassigned ks j"
  by (simp add: reassigned_def)

lemma upt_Suc_shift: "[0..<Suc n] = 0 # map Suc [0..<n]"
  by (metis upt_conv_Cons map_Suc_upt zero_less_Suc)

lemma newLhs_Cons:
  "newLhs (k # ks) (e # es) tc =
     (if k = ILLEGAL then e else newTemp tc) # newLhs ks es (if k = ILLEGAL then tc else Suc tc)"
  by (simp add: newLhs_def upt_Suc_shift live_Cons del: upt_Suc)

lemma afterStmts_Cons:
  "afterStmts (k # ks) (e # es) tc nx =
     (if k = ILLEGAL then afterStmts ks es tc nx
      else if k = VAR then makeDecl [e] [newTemp tc] # afterStmts ks es (Suc tc) nx
      else AssignStmt nx [e] ASSIGN [newTemp tc] # afterStmts ks es (Suc tc) (Suc nx))"
  by (simp add: afterStmts_def upt_Suc_shift live_Cons reassigned_Cons filter_map comp_def
        del: upt_Suc)

lemma mixedLoop_spec:
  assumes "length ks = length es" "\<forall>j<length es. ks ! j = VAR \<longrightarrow> isIdent (es ! j)"
  shows "mixedLoop ks es tc nx
           = Inr (newLhs ks es tc, afterStmts ks es tc nx, tc + live ks (length es),
                  nx + reassigned ks (length es))"
  using assms
proof (induction es arbitrary: ks tc nx)
  case Nil
  then show ?case by (simp add: newLhs_def afterStmts_def)
next
  case (Cons e es)
  then obtain k ks' where ks: "ks = k # ks'" by (cases ks) auto
  have l: "length ks' = length es" using Cons.prems(1) ks by simp
  have i: "\<forall>j<length es. ks' ! j = VAR \<longrightarrow> isIdent (es ! j)"
    using Cons.prems(2) ks by auto
  have e: "k = VAR \<Longrightarrow> isIdent e" using Cons.prems(2) ks by auto
  note IH = Cons.IH [OF l i]
  show ?case
    using e by (simp add: ks IH newLhs_Cons afterStmts_Cons live_Cons reassigned_Cons)
qed


lemma firstSome_map_option: "firstSome (map (map_option f) xs) = map_option f (firstSome xs)"
  by (induction xs) (auto split: option.splits)

text \<open>Reading a node back through the pointer it was written through.\<close>

lemma getAt_updAt_same:
  assumes "\<And>n. addrOf n = Some a \<Longrightarrow> addrOf (f n) = Some a"
  shows "getAt a (updAt a f root) = map_option f (getAt a root)"
proof (induction root rule: node_induct)
  case (node n)
  show ?case
  proof (cases "addrOf n = Some a")
    case True
    then show ?thesis
      using assms [OF True]
      by (simp add: getAt.simps [of a n] updAt.simps [of a f n] getAt.simps [of a "f n"])
  next
    case False
    have kw: "kids (withKids n (map (updAt a f) (kids n))) = map (updAt a f) (kids n)"
      by (rule kids_withKids) simp
    have "map (getAt a) (map (updAt a f) (kids n)) = map (map_option f) (map (getAt a) (kids n))"
      using node.IH by simp
    then have "firstSome (map (getAt a) (map (updAt a f) (kids n)))
                 = map_option f (firstSome (map (getAt a) (kids n)))"
      by (simp only: firstSome_map_option)
    then show ?thesis
      using False
      by (simp add: getAt.simps [of a n] updAt.simps [of a f n]
            getAt.simps [of a "withKids n (map (updAt a f) (kids n))"] kw)
  qed
qed

lemma addrOf_setLhsTok [simp]: "addrOf (setLhsTok lhs t n) = addrOf n"
  by (cases n) auto

lemma addrOf_setStmts [simp]: "addrOf (setStmts l n) = addrOf n"
  by (cases n) auto

lemma fieldsOf_setLhsTok:
  "fieldsOf n = Some (lhs, t, rhs) \<Longrightarrow> fieldsOf (setLhsTok lhs' t' n) = Some (lhs', t', rhs)"
  by (cases n) auto

lemma stmtsOf_setStmts: "stmtsOf n = Some l \<Longrightarrow> stmtsOf (setStmts l' n) = Some l'"
  by (cases n) auto

lemma derefAssign_updAt:
  assumes "derefAssign a root = Some (lhs, t, rhs)"
  shows "derefAssign a (updAt a (setLhsTok lhs' t') root) = Some (lhs', t', rhs)"
  using assms
  by (auto simp: derefAssign_def getAt_updAt_same fieldsOf_setLhsTok split: option.splits)

lemma derefList_updAt:
  assumes "derefList (Some lid) root = Inr l"
  shows "derefList (Some lid) (updAt lid (setStmts l') root) = Inr l'"
  using assms
  by (auto simp: derefList_def getAt_updAt_same stmtsOf_setStmts split: option.splits)

lemma isIdent_unmarkNode [simp]: "isIdent (unmarkNode e) = isIdent e"
  by (cases e) (auto simp: unmarkNode_def)

lemma classify_VAR_isIdent: "classify (Some e) = VAR \<Longrightarrow> isIdent e"
  by (cases e) (auto simp: classify_def split: if_splits)

lemma classify_not_ASSIGN_isIdent: "classify (Some e) \<noteq> ASSIGN \<Longrightarrow> isIdent e"
  by (cases e) (auto simp: classify_def split: if_splits)

subsection \<open>The statement \<^verbatim>\<open>:n, err = f()\<close>\<close>

definition exMixed :: node where
  "exMixed =
     Other 1
       [BlockStmt 1
          [AssignStmt 2 [Ident 20 '':n'', Ident 24 ''err''] ASSIGN [Other 30 [Ident 30 ''f'']]]]"

definition exMixedWalked :: node where
  "exMixedWalked =
     Other 1
       [BlockStmt 1
          [AssignStmt 2 [Ident 20 ''n'', Ident 24 ''err''] ASSIGN [Other 30 [Ident 30 ''f'']]]]"

definition exMixedChange :: change where
  "exMixedChange =
     \<lparr>c_assign = 2, c_kind = Some [VAR, ASSIGN], c_list = Some 1, c_ptr = None, c_ref = Some 2\<rparr>"

definition exMixedDone :: node where
  "exMixedDone =
     Other 1
       [BlockStmt 1
          [AssignStmt 2 [Ident 0 ''GOOEY_TEMP_0'', Ident 0 ''GOOEY_TEMP_1''] DEFINE
             [Other 30 [Ident 30 ''f'']],
           DeclStmt VAR [Ident 20 ''n''] [Ident 0 ''GOOEY_TEMP_0''],
           AssignStmt 3 [Ident 24 ''err''] ASSIGN [Ident 0 ''GOOEY_TEMP_1'']]]"

lemmas ex_eval =
  getAt.simps updAt.simps addrs.simps itoa.simps newAddr_def opt_def fill_def one_def
  derefAssign_def derefList_def newTemp_def tempTag_def digit_def makeDecl_def
  newLhs_def afterStmts_def live_def reassigned_def unmarkNode_def hasPrefix_def
  classify_def countTok_def

lemma exMixed_walked:
  "Walk exFpos visitor0 exMixed xlate0 = (exMixedWalked, xlate0\<lparr>clist := [exMixedChange]\<rparr>)"
  by (simp add: exMixed_def exMixedWalked_def exMixedChange_def Walk.simps assignFields_eq
        xlate0_def visitor0_def ident_def ex_eval)

lemma exMixed_newAddr: "newAddr exMixedWalked = 3"
  by (simp add: exMixedWalked_def ex_eval)

lemma exMixed_applied: "applyChange exMixedChange 0 3 exMixedWalked = Inr (exMixedDone, 2, 4)"
  by (simp add: applyChange_def applyMixed_def exMixedChange_def exMixedWalked_def
        exMixedDone_def Let_def ex_eval)

lemma exMixed_translated: "xlateFile exFpos exMixed = Inr (exMixedDone, [])"
  unfolding xlateFile_def exMixed_walked
  by (simp add: exMixed_applied exMixed_newAddr xlate0_def)

section \<open>Translating a translated tree\<close>

lemma elist_assignStmt: "\<exists>es. elist (snd (assignStmt fp v n x)) = elist x @ es"
  by (cases n) (auto simp: assignFields_eq)

lemma elist_rangeStmt: "\<exists>es. elist (snd (rangeStmt fp n x)) = elist x @ es"
  by (cases n) (auto simp: rangeFields_eq)

lemma elist_Visit: "\<exists>es. elist (snd (snd (Visit fp v n x))) = elist x @ es"
proof (cases n)
  case (AssignStmt a lhs t rhs)
  then show ?thesis
    using elist_assignStmt [of fp v n x] by (auto simp: case_prod_unfold)
next
  case (RangeStmt p k vl t e body)
  then show ?thesis
    using elist_rangeStmt [of fp n x] by (auto simp: case_prod_unfold)
qed (auto simp: ident_def)

lemma length_walkList: "length (fst (walkList f ks x)) = length ks"
  by (induction ks arbitrary: x) (simp_all add: case_prod_unfold)

lemma elist_walkList:
  assumes "\<And>k s. k \<in> set ks \<Longrightarrow> \<exists>es. elist (snd (f k s)) = elist s @ es"
  shows "\<exists>es. elist (snd (walkList f ks x)) = elist x @ es"
  using assms
proof (induction ks arbitrary: x)
  case Nil
  then show ?case by simp
next
  case (Cons k ks)
  obtain k' x1 where f: "f k x = (k', x1)" by (cases "f k x")
  obtain ks' x2 where w: "walkList f ks x1 = (ks', x2)" by (cases "walkList f ks x1")
  obtain e1 where e1: "elist x1 = elist x @ e1" using Cons.prems [of k x] f by auto
  obtain e2 where e2: "elist x2 = elist x1 @ e2" using Cons.IH [of x1] Cons.prems w by auto
  show ?case by (simp add: f w e1 e2)
qed

lemma elist_Walk: "\<exists>es. elist (snd (Walk fp v n x)) = elist x @ es"
proof (induction fp v n x rule: Walk.induct)
  case (1 fp v n x)
  obtain n1 v2 x1 where V: "Visit fp v n x = (n1, v2, x1)" by (cases "Visit fp v n x")
  obtain ks x2 where W: "walkList (Walk fp v2) (kids n1) x1 = (ks, x2)"
    by (cases "walkList (Walk fp v2) (kids n1) x1")
  obtain e1 where e1: "elist x1 = elist x @ e1" using elist_Visit [of fp v n x] V by auto
  have "\<exists>es. elist (snd (walkList (Walk fp v2) (kids n1) x1)) = elist x1 @ es"
  proof (rule elist_walkList)
    fix k s assume "k \<in> set (kids n1)"
    then show "\<exists>es. elist (snd (Walk fp v2 k s)) = elist s @ es"
      using "1.IH" [OF V [symmetric] refl] by blast
  qed
  then obtain e2 where e2: "elist x2 = elist x1 @ e2" using W by auto
  show ?case by (simp add: Walk.simps [of fp v n x] V W e1 e2)
qed

lemma noColon_walkList:
  assumes "\<And>k s k' s'. k \<in> set ks \<Longrightarrow> f k s = (k', s') \<Longrightarrow> elist s' = elist s \<Longrightarrow> noColon k'"
    and "\<And>k s. k \<in> set ks \<Longrightarrow> \<exists>es. elist (snd (f k s)) = elist s @ es"
    and "walkList f ks x = (ks', x')" and "elist x' = elist x"
  shows "list_all noColon ks'"
  using assms
proof (induction ks arbitrary: x ks' x')
  case Nil
  then show ?case by simp
next
  case (Cons k ks)
  obtain k1 x1 where f: "f k x = (k1, x1)" by (cases "f k x")
  obtain ks1 x2 where w: "walkList f ks x1 = (ks1, x2)" by (cases "walkList f ks x1")
  have r: "ks' = k1 # ks1" "x' = x2" using Cons.prems(3) f w by auto
  obtain e1 where e1: "elist x1 = elist x @ e1" using Cons.prems(2) [of k x] f by auto
  have "\<exists>es. elist (snd (walkList f ks x1)) = elist x1 @ es"
    by (rule elist_walkList) (simp add: Cons.prems(2))
  then obtain e2 where e2: "elist x2 = elist x1 @ e2" using w by auto
  have z: "e1 = []" "e2 = []" using Cons.prems(4) r e1 e2 by auto
  have "noColon k1" using Cons.prems(1) [of k x k1 x1] f e1 z by simp
  moreover have "list_all noColon ks1"
  proof (rule Cons.IH [OF _ _ w])
    show "elist x2 = elist x1" using e2 z by simp
  qed (auto intro: Cons.prems(1) simp: Cons.prems(2))
  ultimately show ?case using r by simp
qed

lemma identName_Visit:
  assumes "Visit fp v n x = (n1, v2, x1)"
  shows "identName n1 = identName n"
  using assms
  by (cases n) (auto simp: assignFields_eq rangeFields_eq split: if_splits)

lemma Visit_Ident_noColon:
  assumes "Visit fp v n x = (n1, v2, x1)" "elist x1 = elist x" "identName n = Some name"
  shows "\<not> hasPrefix name '':''"
  using assms by (cases n) (auto simp: ident_def split: if_splits)

lemma Walk_noColon_result:
  assumes "Walk fp v n x = (n', x')" "elist x' = elist x"
  shows "noColon n'"
  using assms
proof (induction fp v n x arbitrary: n' x' rule: Walk.induct)
  case (1 fp v n x)
  obtain n1 v2 x1 where V: "Visit fp v n x = (n1, v2, x1)" by (cases "Visit fp v n x")
  obtain ks x2 where W: "walkList (Walk fp v2) (kids n1) x1 = (ks, x2)"
    by (cases "walkList (Walk fp v2) (kids n1) x1")
  have r: "n' = withKids n1 ks" "x' = x2"
    using "1.prems"(1) by (simp_all add: Walk.simps [of fp v n x] V W)
  obtain e1 where e1: "elist x1 = elist x @ e1" using elist_Visit [of fp v n x] V by auto
  have "\<exists>es. elist (snd (walkList (Walk fp v2) (kids n1) x1)) = elist x1 @ es"
    by (rule elist_walkList) (rule elist_Walk)
  then obtain e2 where e2: "elist x2 = elist x1 @ e2" using W by auto
  have z: "e1 = []" "e2 = []" using "1.prems"(2) r e1 e2 by auto
  have ks: "list_all noColon ks"
  proof (rule noColon_walkList [OF _ _ W])
    show "elist x2 = elist x1" using e2 z by simp
  next
    fix k s k' s'
    assume "k \<in> set (kids n1)" "Walk fp v2 k s = (k', s')" "elist s' = elist s"
    then show "noColon k'" using "1.IH" [OF V [symmetric] refl] by blast
  qed (rule elist_Walk)
  have len: "length ks = length (kids n1)" using length_walkList [of "Walk fp v2" "kids n1" x1] W by simp
  have i: "case identName n1 of None \<Rightarrow> True | Some name \<Rightarrow> \<not> hasPrefix name '':''"
    using Visit_Ident_noColon [OF V] e1 z identName_Visit [OF V] by (auto split: option.splits)
  show ?case
    using ks i by (subst noColon.simps) (simp add: r kids_withKids [OF len])
qed


lemma firstSome_Some: "firstSome xs = Some y \<Longrightarrow> Some y \<in> set xs"
  by (induction xs) (auto split: option.splits)

lemma noColon_getAt:
  assumes "noColon root" "getAt a root = Some n"
  shows "noColon n"
  using assms
proof (induction root rule: node_induct)
  case (node r)
  show ?case
  proof (cases "addrOf r = Some a")
    case True
    then show ?thesis using node.prems by (simp add: getAt.simps [of a r])
  next
    case False
    then have "firstSome (map (getAt a) (kids r)) = Some n"
      using node.prems(2) by (simp add: getAt.simps [of a r])
    then obtain k where "k \<in> set (kids r)" "getAt a k = Some n"
      using firstSome_Some by fastforce
    then show ?thesis using node.IH noColon_kids [OF node.prems(1)] by blast
  qed
qed

lemma noColon_updAt:
  assumes "noColon root" "\<And>n. noColon n \<Longrightarrow> noColon (f n)"
  shows "noColon (updAt a f root)"
  using assms(1)
proof (induction root rule: node_induct)
  case (node r)
  show ?case
  proof (cases "addrOf r = Some a")
    case True
    then show ?thesis using node.prems assms(2) by (simp add: updAt.simps [of a f r])
  next
    case False
    have kw: "kids (withKids r (map (updAt a f) (kids r))) = map (updAt a f) (kids r)"
      by (rule kids_withKids) simp
    have k: "list_all noColon (map (updAt a f) (kids r))"
      using node.IH noColon_kids [OF node.prems] by (simp add: list_all_iff)
    have i: "case identName r of None \<Rightarrow> True | Some name \<Rightarrow> \<not> hasPrefix name '':''"
      using node.prems by (subst (asm) noColon.simps) simp
    show ?thesis
      using False k i
      by (subst noColon.simps) (simp add: updAt.simps [of a f r] kw)
  qed
qed

lemma noColon_kids_iff:
  "identName n = None \<Longrightarrow> noColon n \<longleftrightarrow> list_all noColon (kids n)"
  by (subst noColon.simps) simp

lemma noColon_setLhsTok:
  "noColon n \<Longrightarrow> list_all noColon lhs \<Longrightarrow> noColon (setLhsTok lhs t n)"
  by (cases n) (auto simp: noColon_kids_iff)

lemma noColon_setStmts:
  "noColon n \<Longrightarrow> list_all noColon l \<Longrightarrow> noColon (setStmts l n)"
  by (cases n) (auto simp: noColon_kids_iff)

lemma noColon_setLabeled:
  "noColon n \<Longrightarrow> noColon s \<Longrightarrow> noColon (setLabeled s n)"
  by (cases n) (auto simp: noColon_kids_iff)

lemma noColon_fieldsOf:
  "noColon n \<Longrightarrow> fieldsOf n = Some (lhs, t, rhs) \<Longrightarrow> list_all noColon lhs \<and> list_all noColon rhs"
  by (cases n) (auto simp: noColon_kids_iff)

lemma noColon_stmtsOf:
  "noColon n \<Longrightarrow> stmtsOf n = Some l \<Longrightarrow> list_all noColon l"
  by (cases n) (auto simp: noColon_kids_iff)

lemma noColon_derefAssign:
  assumes "noColon root" "derefAssign a root = Some (lhs, t, rhs)"
  shows "list_all noColon lhs \<and> list_all noColon rhs"
  using assms noColon_getAt noColon_fieldsOf
  by (fastforce simp: derefAssign_def split: option.splits)

lemma noColon_derefList:
  assumes "noColon root" "derefList l root = Inr stmts"
  shows "list_all noColon stmts"
  using assms noColon_getAt noColon_stmtsOf
  by (fastforce simp: derefList_def split: option.splits)

lemma noColon_newTemp: "noColon (newTemp tc)"
  by (subst noColon.simps) (simp add: newTemp_def tempTag_def hasPrefix_def)

lemma noColon_makeDecl:
  "list_all noColon names \<Longrightarrow> list_all noColon vals \<Longrightarrow> noColon (makeDecl names vals)"
  by (simp add: makeDecl_def noColon_kids_iff)

lemma noColon_mixedLoop:
  assumes "mixedLoop ks es tc nx = Inr (lhs, after, r)" "list_all noColon es"
  shows "list_all noColon lhs \<and> list_all noColon after"
  using assms
proof (induction ks es tc nx arbitrary: lhs after r rule: mixedLoop.induct)
  case (1 ks tc nx)
  then show ?case by simp
next
  case (2 e es tc nx)
  then show ?case by simp
next
  case (3 k ks e es tc nx)
  show ?case
  proof (cases "k = ILLEGAL")
    case True
    then show ?thesis
      using "3.prems" "3.IH"(1) by (auto split: sum.splits)
  next
    case False
    show ?thesis
    proof (cases "k = VAR")
      case True
      then show ?thesis
        using False "3.prems" "3.IH"(2)
        by (auto simp: noColon_newTemp noColon_makeDecl split: sum.splits if_splits)
    next
      case nv: False
      then show ?thesis
        using False "3.prems" "3.IH"(3)
        by (auto simp: noColon_newTemp noColon_kids_iff split: sum.splits)
    qed
  qed
qed

lemma noColon_applyNonMixed:
  assumes "noColon root" "applyNonMixed c root = Inr root'"
  shows "noColon root'"
proof -
  obtain lhs t rhs where d: "derefAssign (c_assign c) root = Some (lhs, t, rhs)"
    using assms(2) by (auto simp: applyNonMixed_def split: option.splits)
  have f: "list_all noColon lhs" "list_all noColon rhs"
    using noColon_derefAssign [OF assms(1) d] by simp_all
  have decl: "noColon (makeDecl lhs rhs)" using f by (rule noColon_makeDecl)
  show ?thesis
  proof (cases "c_ptr c")
    case (Some l)
    then have "root' = updAt l (setLabeled (makeDecl lhs rhs)) root"
      using assms(2) d by (auto simp: applyNonMixed_def Let_def split: option.splits if_splits)
    then show ?thesis
      using assms(1) decl by (simp add: noColon_updAt noColon_setLabeled)
  next
    case None
    then obtain stmts i lid where l: "derefList (c_list c) root = Inr stmts"
      and r: "root' = updAt lid (setStmts (stmts[i := makeDecl lhs rhs])) root"
      using assms(2) d
      by (auto simp: applyNonMixed_def Let_def split: option.splits if_splits sum.splits)
    have "list_all noColon stmts" using assms(1) l by (rule noColon_derefList)
    then have "list_all noColon (stmts[i := makeDecl lhs rhs])"
      using decl by (auto simp: list_all_iff dest!: set_update_subset_insert [THEN subsetD])
    then show ?thesis
      using assms(1) by (simp add: r noColon_updAt noColon_setStmts)
  qed
qed

lemma noColon_applyMixed:
  assumes "noColon root" "applyMixed c tc nx root = Inr (root', r)"
  shows "noColon root'"
proof -
  obtain lhs t rhs where d: "derefAssign (c_assign c) root = Some (lhs, t, rhs)"
    using assms(2) by (auto simp: applyMixed_def split: option.splits)
  obtain lhs' after r' where m:
      "mixedLoop (case c_kind c of None \<Rightarrow> [] | Some ks \<Rightarrow> ks) lhs tc nx = Inr (lhs', after, r')"
    using assms(2) d by (auto simp: applyMixed_def split: sum.splits)
  define root1 where "root1 = updAt (c_assign c) (setLhsTok lhs' DEFINE) root"
  obtain stmts i lid where l: "derefList (c_list c) root1 = Inr stmts"
    and r: "root' = updAt lid (setStmts (take (Suc i) stmts @ after @ drop (Suc i) stmts)) root1"
    using assms(2) d m
    by (auto simp: applyMixed_def Let_def root1_def split: option.splits sum.splits)
  have f: "list_all noColon lhs" using noColon_derefAssign [OF assms(1) d] by simp
  have o: "list_all noColon lhs'" "list_all noColon after"
    using noColon_mixedLoop [OF m f] by simp_all
  have n1: "noColon root1"
    unfolding root1_def using assms(1) o(1) by (simp add: noColon_updAt noColon_setLhsTok)
  have s: "list_all noColon stmts" using n1 l by (rule noColon_derefList)
  have "list_all noColon (take (Suc i) stmts @ after @ drop (Suc i) stmts)"
    using s o(2) by (auto simp: list_all_iff dest: in_set_takeD in_set_dropD)
  then show ?thesis
    using n1 by (simp add: r noColon_updAt noColon_setStmts)
qed

lemma noColon_applyAll:
  assumes "noColon root" "applyAll cs tc nx root = Inr (root', r)"
  shows "noColon root'"
  using assms
proof (induction cs arbitrary: tc nx root)
  case Nil
  then show ?case by simp
next
  case (Cons c cs)
  obtain root1 tc1 nx1 where a: "applyChange c tc nx root = Inr (root1, tc1, nx1)"
    and b: "applyAll cs tc1 nx1 root1 = Inr (root', r)"
    using Cons.prems(2) by (auto split: sum.splits)
  have "noColon root1"
  proof (cases "c_kind c = None")
    case True
    then have "applyNonMixed c root = Inr root1"
      using a by (simp add: applyChange_def split: sum.splits)
    then show ?thesis using Cons.prems(1) noColon_applyNonMixed by blast
  next
    case False
    then have "applyMixed c tc nx root = Inr (root1, tc1, nx1)"
      using a by (auto simp: applyChange_def)
    then show ?thesis using Cons.prems(1) noColon_applyMixed by blast
  qed
  then show ?case using b by (rule Cons.IH)
qed

lemma sortErrors_Nil: "sortErrors es = [] \<longleftrightarrow> es = []"
  by (metis length_sort list.size(3) length_0_conv sortErrors_def)

text \<open>
  Claim C7, amended. On the tree xlateFile is idempotent: when it succeeds, the tree
  it leaves has no colon-prefixed identifier, and xlateFile on that tree succeeds and
  leaves it as it is.
\<close>

theorem xlateFile_idempotent_on_trees:
  assumes "xlateFile fp root = Inr (root', [])"
  shows "noColon root' \<and> xlateFile fp root' = Inr (root', [])"
proof -
  obtain root1 x where w: "Walk fp visitor0 root xlate0 = (root1, x)"
    by (cases "Walk fp visitor0 root xlate0")
  have e: "elist x = []"
    using assms w by (auto simp: xlateFile_def sortErrors_Nil split: if_splits)
  then obtain r where a: "applyAll (clist x) 0 (newAddr root1) root1 = Inr (root', r)"
    using assms w by (auto simp: xlateFile_def split: sum.splits)
  have "noColon root1"
    using w e by (auto intro: Walk_noColon_result simp: xlate0_def)
  then have "noColon root'" using a by (rule noColon_applyAll)
  then show ?thesis by (simp add: xlateFile_noColon)
qed

theorem xlateFile_idempotent_on_trees_witness:
  "xlateFile exFpos exMixed = Inr (exMixedDone, [])
   \<and> noColon exMixedDone \<and> xlateFile exFpos exMixedDone = Inr (exMixedDone, [])"
  using exMixed_translated xlateFile_idempotent_on_trees [OF exMixed_translated]
  by simp

text \<open>
  The text that the printer writes for the three statements of the translated tree
  of \<^verbatim>\<open>:n, err = f()\<close>, and the tokens that the scanner returns for it.
\<close>

definition exOutSrc :: string where
  "exOutSrc =
     ''GOOEY_TEMP_0, GOOEY_TEMP_1 := f()'' @ [CHR 0x0A]
     @ ''var n = GOOEY_TEMP_0'' @ [CHR 0x0A]
     @ ''err = GOOEY_TEMP_1'' @ [CHR 0x0A]"

definition exOutToks :: "scanned list" where
  "exOutToks =
     [([], \<lparr>pos = 1, tok = IDENT, lit = ''GOOEY_TEMP_0''\<rparr>),
      ([], \<lparr>pos = 13, tok = COMMA, lit = []\<rparr>),
      ([], \<lparr>pos = 15, tok = IDENT, lit = ''GOOEY_TEMP_1''\<rparr>),
      ([], \<lparr>pos = 28, tok = DEFINE, lit = []\<rparr>),
      ([], \<lparr>pos = 31, tok = IDENT, lit = ''f''\<rparr>),
      ([], \<lparr>pos = 32, tok = OtherTok ''('', lit = []\<rparr>),
      ([], \<lparr>pos = 33, tok = OtherTok '')'', lit = []\<rparr>),
      ([], \<lparr>pos = 34, tok = OtherTok '';'', lit = [CHR 0x0A]\<rparr>),
      ([], \<lparr>pos = 35, tok = VAR, lit = ''var''\<rparr>),
      ([], \<lparr>pos = 39, tok = IDENT, lit = ''n''\<rparr>),
      ([], \<lparr>pos = 41, tok = ASSIGN, lit = []\<rparr>),
      ([], \<lparr>pos = 43, tok = IDENT, lit = ''GOOEY_TEMP_0''\<rparr>),
      ([], \<lparr>pos = 55, tok = OtherTok '';'', lit = [CHR 0x0A]\<rparr>),
      ([], \<lparr>pos = 56, tok = IDENT, lit = ''err''\<rparr>),
      ([], \<lparr>pos = 60, tok = ASSIGN, lit = []\<rparr>),
      ([], \<lparr>pos = 62, tok = IDENT, lit = ''GOOEY_TEMP_1''\<rparr>),
      ([], \<lparr>pos = 74, tok = OtherTok '';'', lit = [CHR 0x0A]\<rparr>)]"

text \<open>
  Claim C7 as stated fails: \<^verbatim>\<open>:n, err = f()\<close> translates, and the translator run on
  its translated output stops in parseFile with the error \<^verbatim>\<open>evil token: ":="\<close> and no
  tree.
\<close>

theorem second_run_rejects_translated_output:
  "xlateFile exFpos exMixed = Inr (exMixedDone, [])
   \<and> parseFile 1 exFpos (\<lambda>b. (None, [])) exOutSrc exOutToks
       = Inr (None, [\<lparr>Pos = exFpos 28, Msg = evilMsg\<rparr>])"
proof -
  have w: "wfToks 1 exOutSrc (liveToks exOutToks)"
    by (simp add: wfToks_def liveToks_def exOutToks_def exOutSrc_def)
  have "lowOK 1 (liveToks exOutToks) 0 0" by (simp add: lowOK_def)
  then obtain b where b: "encode 1 exOutSrc (liveToks exOutToks) 0 0 = Some b"
    using encode_total [OF w] by blast
  have e: "lexErrors exFpos exOutToks = [\<lparr>Pos = exFpos 28, Msg = evilMsg\<rparr>]"
    by (simp add: exOutToks_def)
  have "parseFile 1 exFpos (\<lambda>b. (None, [])) exOutSrc exOutToks
       = Inr (None, [\<lparr>Pos = exFpos 28, Msg = evilMsg\<rparr>])"
    by (simp add: parseFile_def rewriteTokens_encode b e)
  then show ?thesis using exMixed_translated by simp
qed

section \<open>Every recorded change can be applied\<close>

text \<open>
  The changes of the list hold pointers into the tree, and each change is applied to
  the tree as the changes before it left it. This section shows that, on a tree whose
  nodes are distinct objects and that follows the grammar of the language, every
  pointer of every change still leads where assignStmt found it when the change is
  applied, so that \<^verbatim>\<open>change.apply\<close> never panics.
\<close>

subsection \<open>Nodes, addresses and updates\<close>

text \<open>Every node of the tree, parents first.\<close>

function nodes :: "node \<Rightarrow> node list" where
  "nodes n = n # concat (map nodes (kids n))"
  by pat_completeness auto
termination
  by (relation "measure size") (auto simp: kids_size)

declare nodes.simps [simp del]

lemma nodes_self: "n \<in> set (nodes n)"
  by (subst nodes.simps) simp

lemma nodes_kid: "k \<in> set (kids n) \<Longrightarrow> m \<in> set (nodes k) \<Longrightarrow> m \<in> set (nodes n)"
  by (subst nodes.simps) auto

lemma nodes_cases:
  assumes "m \<in> set (nodes n)"
  obtains "m = n" | k where "k \<in> set (kids n)" "m \<in> set (nodes k)"
  using assms by (subst (asm) nodes.simps) auto

lemma nodes_trans:
  assumes "m \<in> set (nodes n)" "n \<in> set (nodes r)"
  shows "m \<in> set (nodes r)"
  using assms(2,1)
proof (induction r rule: node_induct)
  case (node r)
  from node.prems(1) show ?case
  proof (cases rule: nodes_cases)
    case 1
    then show ?thesis using node.prems(2) by simp
  next
    case (2 k)
    then show ?thesis using node.IH node.prems(2) nodes_kid by blast
  qed
qed

lemma size_nodes: "m \<in> set (nodes n) \<Longrightarrow> size m \<le> size n"
proof (induction n rule: node_induct)
  case (node n)
  from node.prems show ?case
  proof (cases rule: nodes_cases)
    case 1
    then show ?thesis by simp
  next
    case (2 k)
    then show ?thesis using node.IH kids_size [of k n] by fastforce
  qed
qed

lemma addrs_iff: "a \<in> set (addrs r) \<longleftrightarrow> (\<exists>n \<in> set (nodes r). addrOf n = Some a)"
proof (induction r rule: node_induct)
  case (node r)
  show ?case
  proof
    assume "a \<in> set (addrs r)"
    then consider "addrOf r = Some a" | k where "k \<in> set (kids r)" "a \<in> set (addrs k)"
      by (subst (asm) addrs.simps) (auto simp: opt_def split: option.splits)
    then show "\<exists>n \<in> set (nodes r). addrOf n = Some a"
    proof cases
      case 1
      then show ?thesis using nodes_self by blast
    next
      case (2 k)
      then show ?thesis using node.IH nodes_kid by blast
    qed
  next
    assume "\<exists>n \<in> set (nodes r). addrOf n = Some a"
    then obtain n where n: "n \<in> set (nodes r)" "addrOf n = Some a" by blast
    from n(1) show "a \<in> set (addrs r)"
    proof (cases rule: nodes_cases)
      case 1
      then show ?thesis using n(2) by (subst addrs.simps) (simp add: opt_def)
    next
      case (2 k)
      then have "a \<in> set (addrs k)" using node.IH n(2) by blast
      then show ?thesis using 2(1) by (subst addrs.simps) auto
    qed
  qed
qed

lemma firstSome_None: "firstSome xs = None \<longleftrightarrow> (\<forall>x \<in> set xs. x = None)"
  by (induction xs) (auto split: option.splits)

lemma getAt_None: "getAt a r = None \<longleftrightarrow> a \<notin> set (addrs r)"
proof (induction r rule: node_induct)
  case (node r)
  have "getAt a r = None \<longleftrightarrow> addrOf r \<noteq> Some a \<and> (\<forall>k \<in> set (kids r). getAt a k = None)"
    by (subst getAt.simps) (auto simp: firstSome_None)
  also have "\<dots> \<longleftrightarrow> addrOf r \<noteq> Some a \<and> (\<forall>k \<in> set (kids r). a \<notin> set (addrs k))"
    using node.IH by auto
  also have "\<dots> \<longleftrightarrow> a \<notin> set (addrs r)"
    by (subst addrs.simps) (auto simp: opt_def split: option.splits)
  finally show ?case .
qed

lemma getAt_nodes:
  assumes "getAt a r = Some n"
  shows "n \<in> set (nodes r) \<and> addrOf n = Some a"
  using assms
proof (induction r rule: node_induct)
  case (node r)
  show ?case
  proof (cases "addrOf r = Some a")
    case True
    then show ?thesis using node.prems nodes_self by (simp add: getAt.simps [of a r])
  next
    case False
    then have "firstSome (map (getAt a) (kids r)) = Some n"
      using node.prems by (simp add: getAt.simps [of a r])
    then obtain k where "k \<in> set (kids r)" "getAt a k = Some n"
      using firstSome_Some by fastforce
    then show ?thesis using node.IH nodes_kid by blast
  qed
qed

lemma updAt_absent: "a \<notin> set (addrs r) \<Longrightarrow> updAt a f r = r"
proof (induction r rule: node_induct)
  case (node r)
  have n: "addrOf r \<noteq> Some a" and k: "\<And>k. k \<in> set (kids r) \<Longrightarrow> a \<notin> set (addrs k)"
    using node.prems by (subst (asm) addrs.simps, auto simp: opt_def split: option.splits)+
  have "map (updAt a f) (kids r) = kids r"
    using node.IH k by (simp add: map_idI)
  then show ?case using n by (simp add: updAt.simps [of a f r])
qed

lemma updAt_here: "addrOf n = Some a \<Longrightarrow> updAt a f n = f n"
  by (subst updAt.simps) simp

lemma updAt_there:
  "addrOf n \<noteq> Some a \<Longrightarrow> updAt a f n = withKids n (map (updAt a f) (kids n))"
  by (subst updAt.simps) simp

lemma getAt_here: "addrOf n = Some a \<Longrightarrow> getAt a n = Some n"
  by (subst getAt.simps) simp

lemma getAt_there:
  "addrOf n \<noteq> Some a \<Longrightarrow> getAt a n = firstSome (map (getAt a) (kids n))"
  by (subst getAt.simps) simp

lemma addrs_Cons_kids:
  "addrs r = opt (addrOf r) @ concat (map addrs (kids r))"
  by (subst addrs.simps) simp

lemma distinct_addrs_kids:
  assumes "distinct (addrs r)"
  shows "distinct (concat (map addrs (kids r)))"
    and "addrOf r = Some a \<Longrightarrow> a \<notin> set (concat (map addrs (kids r)))"
  using assms by (subst (asm) addrs_Cons_kids, simp add: opt_def)+

lemma distinct_concat_mem:
  "distinct (concat xss) \<Longrightarrow> xs \<in> set xss \<Longrightarrow> distinct xs"
  by (induction xss) auto

lemma distinct_addrs_kid:
  "distinct (addrs r) \<Longrightarrow> k \<in> set (kids r) \<Longrightarrow> distinct (addrs k)"
  using distinct_addrs_kids(1) [of r] distinct_concat_mem [of "map addrs (kids r)" "addrs k"]
  by simp

lemma distinct_addrs_nodes:
  "n \<in> set (nodes r) \<Longrightarrow> distinct (addrs r) \<Longrightarrow> distinct (addrs n)"
proof (induction r rule: node_induct)
  case (node r)
  from node.prems(1) show ?case
  proof (cases rule: nodes_cases)
    case 1
    then show ?thesis using node.prems(2) by simp
  next
    case (2 k)
    then show ?thesis using node.IH distinct_addrs_kid [OF node.prems(2)] by blast
  qed
qed

lemma getAt_kids:
  assumes "distinct (concat (map addrs ks))" "k \<in> set ks" "getAt a k = Some n"
  shows "firstSome (map (getAt a) ks) = Some n"
  using assms
proof (induction ks)
  case Nil
  then show ?case by simp
next
  case (Cons k1 rest)
  show ?case
  proof (cases "k = k1")
    case True
    then show ?thesis using Cons.prems(3) by simp
  next
    case False
    then have k: "k \<in> set rest" using Cons.prems(2) by simp
    have "a \<in> set (addrs k)" using Cons.prems(3) getAt_None [of a k] by auto
    then have "a \<notin> set (addrs k1)" using Cons.prems(1) k by auto
    then have "getAt a k1 = None" by (simp add: getAt_None)
    moreover have "firstSome (map (getAt a) rest) = Some n"
      using Cons.IH k Cons.prems(1,3) by simp
    ultimately show ?thesis by simp
  qed
qed

lemma getAt_unique:
  assumes "n \<in> set (nodes r)" "addrOf n = Some a" "distinct (addrs r)"
  shows "getAt a r = Some n"
  using assms
proof (induction r rule: node_induct)
  case (node r)
  from node.prems(1) show ?case
  proof (cases rule: nodes_cases)
    case 1
    then show ?thesis using node.prems(2) by (simp add: getAt.simps [of a r])
  next
    case (2 k)
    have ak: "a \<in> set (addrs k)" using 2(2) node.prems(2) addrs_iff by blast
    then have "a \<in> set (concat (map addrs (kids r)))" using 2(1) by auto
    then have r: "addrOf r \<noteq> Some a" using distinct_addrs_kids(2) [OF node.prems(3)] by blast
    have "getAt a k = Some n"
      using node.IH [OF 2(1) 2(2) node.prems(2)] distinct_addrs_kid [OF node.prems(3) 2(1)] by simp
    then have "firstSome (map (getAt a) (kids r)) = Some n"
      using getAt_kids [OF distinct_addrs_kids(1) [OF node.prems(3)] 2(1)] by simp
    then show ?thesis using r by (simp add: getAt.simps [of a r])
  qed
qed

lemma addrs_withKids:
  "addrs (withKids r ks) = opt (addrOf r) @ concat (map addrs (kids (withKids r ks)))"
  by (subst addrs.simps) simp

lemma mset_kids_updAt:
  assumes "distinct (concat (map addrs ks))" "firstSome (map (getAt a) ks) = Some n"
    and "\<And>k. k \<in> set ks \<Longrightarrow> getAt a k = Some n \<Longrightarrow>
            mset (addrs (updAt a f k)) + mset (addrs n) = mset (addrs k) + mset (addrs (f n))"
  shows "mset (concat (map addrs (map (updAt a f) ks))) + mset (addrs n)
           = mset (concat (map addrs ks)) + mset (addrs (f n))"
  using assms
proof (induction ks)
  case Nil
  then show ?case by simp
next
  case (Cons k rest)
  show ?case
  proof (cases "getAt a k")
    case None
    then have "updAt a f k = k" by (simp add: getAt_None updAt_absent)
    moreover have "mset (concat (map addrs (map (updAt a f) rest))) + mset (addrs n)
           = mset (concat (map addrs rest)) + mset (addrs (f n))"
      using Cons.IH Cons.prems None by simp
    ultimately show ?thesis by simp
  next
    case (Some m)
    then have m: "m = n" using Cons.prems(2) by simp
    have "a \<in> set (addrs k)" using Some getAt_None [of a k] by auto
    then have "\<And>k'. k' \<in> set rest \<Longrightarrow> a \<notin> set (addrs k')" using Cons.prems(1) by auto
    then have "map (updAt a f) rest = rest" by (simp add: map_idI updAt_absent)
    moreover have "mset (addrs (updAt a f k)) + mset (addrs n) = mset (addrs k) + mset (addrs (f n))"
      using Cons.prems(3) [of k] Some m by simp
    ultimately show ?thesis by (simp add: add.assoc add.left_commute)
  qed
qed

lemma mset_addrs_updAt:
  assumes "getAt a r = Some n" "distinct (addrs r)"
  shows "mset (addrs (updAt a f r)) + mset (addrs n) = mset (addrs r) + mset (addrs (f n))"
  using assms
proof (induction r rule: node_induct)
  case (node r)
  show ?case
  proof (cases "addrOf r = Some a")
    case True
    then have "updAt a f r = f r" "n = r"
      using node.prems(1) by (simp_all add: getAt_here updAt_here)
    then show ?thesis by simp
  next
    case False
    then have g: "firstSome (map (getAt a) (kids r)) = Some n"
      using node.prems(1) by (simp add: getAt.simps [of a r])
    have "mset (concat (map addrs (map (updAt a f) (kids r)))) + mset (addrs n)
            = mset (concat (map addrs (kids r))) + mset (addrs (f n))"
      using node.IH distinct_addrs_kid [OF node.prems(2)]
      by (intro mset_kids_updAt [OF distinct_addrs_kids(1) [OF node.prems(2)] g]) blast
    then show ?thesis
      using False
      by (simp add: updAt.simps [of a f r] addrs_withKids kids_withKids addrs_Cons_kids [of r]
            add.assoc)
  qed
qed

lemma nodes_updAt_new:
  assumes "getAt a r = Some X"
  shows "set (nodes (f X)) \<subseteq> set (nodes (updAt a f r))"
  using assms
proof (induction r rule: node_induct)
  case (node r)
  show ?case
  proof (cases "addrOf r = Some a")
    case True
    then have "updAt a f r = f r" "X = r"
      using node.prems by (simp_all add: getAt_here updAt_here)
    then show ?thesis by simp
  next
    case False
    then have "firstSome (map (getAt a) (kids r)) = Some X"
      using node.prems by (simp add: getAt.simps [of a r])
    then obtain k where k: "k \<in> set (kids r)" "getAt a k = Some X"
      using firstSome_Some by fastforce
    have "updAt a f k \<in> set (kids (updAt a f r))"
      using False k(1) by (simp add: updAt.simps [of a f r] kids_withKids)
    then show ?thesis using node.IH [OF k] nodes_kid by blast
  qed
qed

lemma nodes_updAt_old:
  assumes "N \<in> set (nodes r)"
  shows "(\<exists>X \<in> set (nodes r). addrOf X = Some a \<and> N \<in> set (nodes X))
           \<or> updAt a f N \<in> set (nodes (updAt a f r))"
  using assms
proof (induction r rule: node_induct)
  case (node r)
  show ?case
  proof (cases "addrOf r = Some a")
    case True
    then show ?thesis using node.prems nodes_self by blast
  next
    case False
    from node.prems show ?thesis
    proof (cases rule: nodes_cases)
      case 1
      then show ?thesis using nodes_self by blast
    next
      case (2 k)
      have kk: "updAt a f k \<in> set (kids (updAt a f r))"
        using False 2(1) by (simp add: updAt.simps [of a f r] kids_withKids)
      from node.IH [OF 2] show ?thesis
      proof
        assume "\<exists>X \<in> set (nodes k). addrOf X = Some a \<and> N \<in> set (nodes X)"
        then show ?thesis using nodes_kid [OF 2(1)] by blast
      next
        assume "updAt a f N \<in> set (nodes (updAt a f k))"
        then show ?thesis using nodes_kid [OF kk] by blast
      qed
    qed
  qed
qed


subsection \<open>A change in place\<close>

text \<open>
  \<open>compat\<close>: the kinds of a change fit a left-hand side (a position that is not
  reassigned holds an identifier; with no kinds every position does). \<open>leadsTo c s\<close>:
  the statement \<open>s\<close> is the assignment of the change, or a labeled statement whose
  labels lead to it, the innermost one being the one \<^verbatim>\<open>c.ptr\<close> points into.
  \<open>anchored c s\<close>: moreover \<open>s\<close> is the statement \<^verbatim>\<open>c.ref\<close>. \<open>hosts c N\<close>: \<open>N\<close> is the
  node whose list \<^verbatim>\<open>c.list\<close> points to, and the list holds such a statement.
  \<open>pending c root\<close>: the tree holds such a node.
\<close>

fun isAssign :: "node \<Rightarrow> bool" where
  "isAssign (AssignStmt a lhs t rhs) = True"
| "isAssign n = False"

definition compat :: "token list option \<Rightarrow> node list \<Rightarrow> bool" where
  "compat kind lhs =
     (case kind of
        None \<Rightarrow> list_all isIdent lhs
      | Some ks \<Rightarrow> list_all2 (\<lambda>k e. k = ASSIGN \<or> isIdent e) ks lhs)"

fun leadsTo :: "change \<Rightarrow> node \<Rightarrow> bool" where
  "leadsTo c (AssignStmt a lhs t rhs) = (c_assign c = a \<and> compat (c_kind c) lhs)"
| "leadsTo c (LabeledStmt l lab s) = (leadsTo c s \<and> (isAssign s \<longrightarrow> c_ptr c = Some l))"
| "leadsTo c n = False"

definition anchored :: "change \<Rightarrow> node \<Rightarrow> bool" where
  "anchored c s \<longleftrightarrow> leadsTo c s \<and> c_ref c = addrOf s \<and> (isAssign s \<longrightarrow> c_ptr c = None)"

definition hosts :: "change \<Rightarrow> node \<Rightarrow> bool" where
  "hosts c N \<longleftrightarrow>
     addrOf N = c_list c
     \<and> (case stmtsOf N of None \<Rightarrow> False | Some stmts \<Rightarrow> \<exists>s \<in> set stmts. anchored c s)"

definition pending :: "change \<Rightarrow> node \<Rightarrow> bool" where
  "pending c root \<longleftrightarrow> (\<exists>N \<in> set (nodes root). hosts c N)"

lemma isIdent_withKids [simp]: "isIdent (withKids e ks) = isIdent e"
  by (cases e) (auto split: prod.splits)

lemma isAssign_withKids [simp]: "isAssign (withKids e ks) = isAssign e"
  by (cases e) (auto split: prod.splits)

lemma isLabeled_withKids [simp]: "isLabeled (withKids e ks) = isLabeled e"
  by (cases e) (auto split: prod.splits)

lemma isIdent_updAt:
  assumes "\<And>m. isIdent (f m) = isIdent m"
  shows "isIdent (updAt x f e) = isIdent e"
  using assms by (cases "addrOf e = Some x") (simp_all add: updAt_here updAt_there)

lemma addrOf_updAt:
  assumes "\<And>m. addrOf (f m) = addrOf m"
  shows "addrOf (updAt x f e) = addrOf e"
  using assms by (cases "addrOf e = Some x") (simp_all add: updAt_here updAt_there)

lemma updAt_Assign:
  "a \<noteq> x \<Longrightarrow> updAt x f (AssignStmt a lhs t rhs)
     = AssignStmt a (map (updAt x f) lhs) t (map (updAt x f) rhs)"
  by (simp add: updAt_there)

lemma updAt_Labeled:
  "l \<noteq> x \<Longrightarrow> updAt x f (LabeledStmt l lab s) = LabeledStmt l (updAt x f lab) (updAt x f s)"
  by (simp add: updAt_there one_def)

lemma compat_map:
  assumes "\<And>e. isIdent (g e) = isIdent e"
  shows "compat k (map g lhs) = compat k lhs"
  using assms
  by (simp add: compat_def list_all2_map2 list.pred_map comp_def split: option.splits)

lemma stmts_kids: "stmtsOf N = Some stmts \<Longrightarrow> \<exists>pre. kids N = pre @ stmts \<and> (\<forall>L. kids (setStmts L N) = pre @ L)"
  by (cases N) auto

lemma stmtsOf_updAt:
  "addrOf N \<noteq> Some x \<Longrightarrow> stmtsOf N = Some stmts
     \<Longrightarrow> stmtsOf (updAt x f N) = Some (map (updAt x f) stmts)"
  by (cases N) (auto simp: updAt_there fill_def opt_def split: option.splits)

lemma leadsTo_stmtsOf: "leadsTo c n \<Longrightarrow> stmtsOf n = None"
  by (cases n) auto

lemma leadsTo_updAt:
  assumes "leadsTo c s" "\<forall>M \<in> set (nodes s). addrOf M = Some x \<longrightarrow> \<not> leadsTo c M"
    and fi: "\<And>m. isIdent (f m) = isIdent m"
  shows "leadsTo c (updAt x f s) \<and> addrOf (updAt x f s) = addrOf s
           \<and> isAssign (updAt x f s) = isAssign s"
  using assms(1,2)
proof (induction c s rule: leadsTo.induct)
  case (1 c a lhs t rhs)
  have "a \<noteq> x" using 1 nodes_self [of "AssignStmt a lhs t rhs"] by fastforce
  then show ?case
    using 1(1) by (simp add: updAt_Assign compat_map [OF isIdent_updAt [OF fi]])
next
  case (2 c l lab s)
  have l: "l \<noteq> x" using 2(2,3) nodes_self [of "LabeledStmt l lab s"] by fastforce
  have "\<forall>M \<in> set (nodes s). addrOf M = Some x \<longrightarrow> \<not> leadsTo c M"
    using 2(3) nodes_kid [of s "LabeledStmt l lab s"] by simp
  then have "leadsTo c (updAt x f s) \<and> addrOf (updAt x f s) = addrOf s
           \<and> isAssign (updAt x f s) = isAssign s"
    using 2 by simp
  then show ?case using 2(2) l by (simp add: updAt_Labeled)
qed simp_all

lemma hosts_updAt:
  assumes h: "hosts c N" and n: "addrOf N \<noteq> Some x"
    and m: "\<forall>M \<in> set (nodes N). addrOf M = Some x \<longrightarrow> \<not> leadsTo c M"
    and fi: "\<And>m. isIdent (f m) = isIdent m"
  shows "hosts c (updAt x f N)"
proof -
  from h obtain stmts s where s: "stmtsOf N = Some stmts" "s \<in> set stmts" "anchored c s"
    and a: "addrOf N = c_list c"
    by (auto simp: hosts_def split: option.splits)
  have sk: "s \<in> set (kids N)" using stmts_kids [OF s(1)] s(2) by auto
  have "\<forall>M \<in> set (nodes s). addrOf M = Some x \<longrightarrow> \<not> leadsTo c M"
    using m nodes_kid [OF sk] by blast
  then have "anchored c (updAt x f s)"
    using leadsTo_updAt [of c s x f] s(3) fi by (simp add: anchored_def)
  moreover have "stmtsOf (updAt x f N) = Some (map (updAt x f) stmts)"
    using stmtsOf_updAt [OF n s(1)] .
  moreover have "addrOf (updAt x f N) = c_list c"
    using n a by (simp add: updAt_there)
  ultimately show ?thesis using s(2) by (auto simp: hosts_def)
qed

lemma pending_updAt:
  assumes d: "distinct (addrs root)" and g: "getAt x root = Some X"
    and fi: "\<And>m. isIdent (f m) = isIdent m"
    and p: "pending c root"
    and A: "\<not> leadsTo c X"
    and B: "\<And>N. N \<in> set (nodes X) \<Longrightarrow> hosts c N \<Longrightarrow> (\<exists>N' \<in> set (nodes (f X)). hosts c N') \<or> Q"
  shows "pending c (updAt x f root) \<or> Q"
proof -
  from p obtain N where N: "N \<in> set (nodes root)" "hosts c N" by (auto simp: pending_def)
  have X: "\<And>M. M \<in> set (nodes root) \<Longrightarrow> addrOf M = Some x \<Longrightarrow> M = X"
    using getAt_unique [OF _ _ d] g by fastforce
  show ?thesis
  proof (cases "N \<in> set (nodes X)")
    case True
    then show ?thesis
      using B [OF True N(2)] nodes_updAt_new [OF g, of f] by (auto simp: pending_def)
  next
    case False
    have n: "addrOf N \<noteq> Some x" using X [OF N(1)] False nodes_self by blast
    have "updAt x f N \<in> set (nodes (updAt x f root))"
      using nodes_updAt_old [OF N(1), of x f] X False by blast
    moreover have "\<forall>M \<in> set (nodes N). addrOf M = Some x \<longrightarrow> \<not> leadsTo c M"
      using X A nodes_trans [OF _ N(1)] by blast
    then have "hosts c (updAt x f N)"
      using hosts_updAt [OF N(2) n _ fi] by blast
    ultimately show ?thesis by (auto simp: pending_def)
  qed
qed

lemma leadsTo_target:
  assumes "leadsTo c s"
  shows "\<exists>lhs t rhs. AssignStmt (c_assign c) lhs t rhs \<in> set (nodes s) \<and> compat (c_kind c) lhs
           \<and> (s = AssignStmt (c_assign c) lhs t rhs
              \<or> \<not> isAssign s \<and> (\<exists>l lab. c_ptr c = Some l
                   \<and> LabeledStmt l lab (AssignStmt (c_assign c) lhs t rhs) \<in> set (nodes s)))"
  using assms
proof (induction c s rule: leadsTo.induct)
  case (1 c a lhs t rhs)
  then show ?case using nodes_self by auto
next
  case (2 c l lab s)
  from "2.prems" have ls: "leadsTo c s" and pt: "isAssign s \<longrightarrow> c_ptr c = Some l"
    by simp_all
  from "2.IH" [OF ls] obtain lhs t rhs where A: "AssignStmt (c_assign c) lhs t rhs \<in> set (nodes s)"
      "compat (c_kind c) lhs"
      "s = AssignStmt (c_assign c) lhs t rhs
        \<or> \<not> isAssign s \<and> (\<exists>l' lab'. c_ptr c = Some l'
             \<and> LabeledStmt l' lab' (AssignStmt (c_assign c) lhs t rhs) \<in> set (nodes s))"
    by blast
  have k: "s \<in> set (kids (LabeledStmt l lab s))" by simp
  from A(3) show ?case
  proof
    assume s: "s = AssignStmt (c_assign c) lhs t rhs"
    then have "c_ptr c = Some l" using pt by simp
    then show ?thesis
      using s A(2) nodes_self [of "LabeledStmt l lab s"] nodes_kid [OF k A(1)] by auto
  next
    assume "\<not> isAssign s \<and> (\<exists>l' lab'. c_ptr c = Some l'
             \<and> LabeledStmt l' lab' (AssignStmt (c_assign c) lhs t rhs) \<in> set (nodes s))"
    then obtain l' lab' where L: "c_ptr c = Some l'"
        "LabeledStmt l' lab' (AssignStmt (c_assign c) lhs t rhs) \<in> set (nodes s)"
      by blast
    show ?thesis
      using A(2) L(1) nodes_kid [OF k A(1)] nodes_kid [OF k L(2)] by auto
  qed
qed simp_all

lemma indexStmt_Some:
  "indexStmt stmts r = Some i \<Longrightarrow> i < length stmts \<and> addrOf (stmts ! i) = r \<and> r \<noteq> None"
proof (induction stmts arbitrary: i)
  case Nil
  then show ?case by simp
next
  case (Cons v vs)
  then show ?case by (cases i) (auto split: if_splits)
qed

lemma indexStmt_mem:
  "s \<in> set stmts \<Longrightarrow> addrOf s = Some a \<Longrightarrow> \<exists>i. indexStmt stmts (Some a) = Some i"
  by (induction stmts) auto

lemma indexStmt_map:
  assumes "\<And>s. addrOf (g s) = addrOf s"
  shows "indexStmt (map g stmts) r = indexStmt stmts r"
  using assms by (induction stmts) auto

lemma set_update_mem: "s \<in> set xs \<Longrightarrow> s \<noteq> xs ! i \<Longrightarrow> s \<in> set (xs[i := y])"
  by (metis in_set_conv_nth length_list_update nth_list_update_neq)

lemma hosts_shape: "hosts c N \<Longrightarrow> \<not> isAssign N \<and> \<not> isLabeled N \<and> \<not> isIdent N"
  by (cases N) (auto simp: hosts_def)

lemma distinct_mset_sub:
  assumes "mset xs \<subseteq># mset ys" "distinct ys"
  shows "distinct xs \<and> set xs \<subseteq> set ys"
proof -
  have "\<And>x. count (mset xs) x \<le> count (mset ys) x"
    using assms(1) by (simp add: mset_subset_eq_count)
  moreover have "\<And>x. count (mset ys) x \<le> 1"
    using assms(2) by (simp add: distinct_count_atmost_1)
  ultimately have "\<And>x. count (mset xs) x \<le> 1" using le_trans by blast
  then have "distinct xs" by (metis distinct_count_atmost_1 le_Suc_eq le_zero_eq not_in_iff count_mset_0_iff One_nat_def)
  moreover have "set xs \<subseteq> set ys" using assms(1) set_mset_mono by fastforce
  ultimately show ?thesis by simp
qed

lemma mset_addrs_update:
  "i < length xs \<Longrightarrow>
     mset (concat (map addrs (xs[i := y]))) + mset (addrs (xs ! i))
       = mset (concat (map addrs xs)) + mset (addrs y)"
proof (induction xs arbitrary: i)
  case Nil
  then show ?case by simp
next
  case (Cons x xs)
  then show ?case by (cases i) (auto simp: add.assoc add.left_commute)
qed

lemma footprint:
  assumes p: "pending c root" and d: "distinct (addrs root)"
  obtains N lid stmts s lhs t rhs where
    "c_list c = Some lid" "getAt lid root = Some N" "stmtsOf N = Some stmts"
    "s \<in> set stmts" "anchored c s" "N \<in> set (nodes root)" "s \<in> set (nodes root)"
    "getAt (c_assign c) root = Some (AssignStmt (c_assign c) lhs t rhs)"
    "compat (c_kind c) lhs"
    "(c_ptr c = None \<and> s = AssignStmt (c_assign c) lhs t rhs)
      \<or> (\<exists>l lab. c_ptr c = Some l
            \<and> getAt l root = Some (LabeledStmt l lab (AssignStmt (c_assign c) lhs t rhs)))"
    "AssignStmt (c_assign c) lhs t rhs \<in> set (nodes s)"
proof -
  from p obtain N stmts s where N: "N \<in> set (nodes root)" "addrOf N = c_list c"
      "stmtsOf N = Some stmts" "s \<in> set stmts" "anchored c s"
    by (auto simp: pending_def hosts_def split: option.splits)
  obtain lid where lid: "addrOf N = Some lid" using N(3) by (cases N) auto
  have g: "getAt lid root = Some N" using getAt_unique [OF N(1) lid d] .
  have "s \<in> set (kids N)" using stmts_kids [OF N(3)] N(4) by auto
  then have sr: "s \<in> set (nodes root)" using nodes_kid nodes_self nodes_trans [OF _ N(1)] by blast
  from N(5) have l: "leadsTo c s" by (simp add: anchored_def)
  from leadsTo_target [OF l] obtain lhs t rhs where
    A: "AssignStmt (c_assign c) lhs t rhs \<in> set (nodes s)" "compat (c_kind c) lhs"
      "s = AssignStmt (c_assign c) lhs t rhs
        \<or> \<not> isAssign s \<and> (\<exists>l lab. c_ptr c = Some l
             \<and> LabeledStmt l lab (AssignStmt (c_assign c) lhs t rhs) \<in> set (nodes s))"
    by blast
  have ga: "getAt (c_assign c) root = Some (AssignStmt (c_assign c) lhs t rhs)"
    using getAt_unique [OF nodes_trans [OF A(1) sr] _ d] by simp
  have "(c_ptr c = None \<and> s = AssignStmt (c_assign c) lhs t rhs)
      \<or> (\<exists>l lab. c_ptr c = Some l
            \<and> getAt l root = Some (LabeledStmt l lab (AssignStmt (c_assign c) lhs t rhs)))"
    using A(3)
  proof
    assume "s = AssignStmt (c_assign c) lhs t rhs"
    then show ?thesis using N(5) by (simp add: anchored_def)
  next
    assume "\<not> isAssign s \<and> (\<exists>l lab. c_ptr c = Some l
             \<and> LabeledStmt l lab (AssignStmt (c_assign c) lhs t rhs) \<in> set (nodes s))"
    then obtain l lab where L: "c_ptr c = Some l"
        "LabeledStmt l lab (AssignStmt (c_assign c) lhs t rhs) \<in> set (nodes s)"
      by blast
    have "getAt l root = Some (LabeledStmt l lab (AssignStmt (c_assign c) lhs t rhs))"
      using getAt_unique [OF nodes_trans [OF L(2) sr] _ d] by simp
    then show ?thesis using L(1) by blast
  qed
  then show ?thesis
    using that [OF _ g N(3) N(4) N(5) N(1) sr ga A(2) _ A(1)] N(2) lid by simp
qed


subsection \<open>The invariant of the loop of xlateFile\<close>

text \<open>
  The nodes of the tree have distinct addresses below the next free one, the changes
  still to apply have distinct assignments, and each of them is in place.
\<close>

definition Inv :: "node \<Rightarrow> change list \<Rightarrow> addr \<Rightarrow> bool" where
  "Inv root cs nx \<longleftrightarrow>
     distinct (addrs root) \<and> (\<forall>a \<in> set (addrs root). a < nx)
     \<and> distinct (map c_assign cs) \<and> (\<forall>c \<in> set cs. pending c root)"

lemma nodes_makeDecl:
  "k \<in> set (lhs @ rhs) \<Longrightarrow> M \<in> set (nodes k) \<Longrightarrow> M \<in> set (nodes (makeDecl lhs rhs))"
  using nodes_kid [of k "makeDecl lhs rhs" M] by (simp add: makeDecl_def)

lemma nodes_Assign_inner:
  assumes "M \<in> set (nodes (AssignStmt a lhs t rhs))" "\<not> isAssign M"
  obtains k where "k \<in> set (lhs @ rhs)" "M \<in> set (nodes k)"
  using assms(1)
proof (cases rule: nodes_cases)
  case 1
  then show ?thesis using assms(2) by simp
next
  case (2 k)
  then show ?thesis using that by simp
qed

lemma survive_label:
  assumes "M \<in> set (nodes (LabeledStmt l lab (AssignStmt a lhs t rhs)))" "hosts c2 M"
  shows "M \<in> set (nodes (LabeledStmt l lab (makeDecl lhs rhs)))"
  using assms(1)
proof (cases rule: nodes_cases)
  case 1
  then show ?thesis using hosts_shape [OF assms(2)] by simp
next
  case (2 k)
  then have "k = lab \<or> k = AssignStmt a lhs t rhs" by simp
  then show ?thesis
  proof
    assume "k = lab"
    then show ?thesis using 2(2) nodes_kid [of lab "LabeledStmt l lab (makeDecl lhs rhs)"] by simp
  next
    assume k: "k = AssignStmt a lhs t rhs"
    have na: "\<not> isAssign M" using hosts_shape [OF assms(2)] by simp
    from 2(2) [unfolded k] na obtain k' where "k' \<in> set (lhs @ rhs)" "M \<in> set (nodes k')"
      by (rule nodes_Assign_inner)
    then have "M \<in> set (nodes (makeDecl lhs rhs))" by (rule nodes_makeDecl)
    then show ?thesis
      using nodes_kid [of "makeDecl lhs rhs" "LabeledStmt l lab (makeDecl lhs rhs)"] by simp
  qed
qed

lemma hosts_setStmts:
  assumes "hosts c2 N" "stmtsOf N = Some stmts"
    and "\<And>s. s \<in> set stmts \<Longrightarrow> anchored c2 s \<Longrightarrow> s \<in> set stmts'"
  shows "hosts c2 (setStmts stmts' N)"
  using assms by (auto simp: hosts_def stmtsOf_setStmts)

lemma survive_list:
  assumes N: "stmtsOf N = Some stmts" and i: "i < length stmts"
    and A: "stmts ! i = AssignStmt a lhs t rhs" and ne: "c_assign c2 \<noteq> a"
    and M: "M \<in> set (nodes N)" and h: "hosts c2 M"
  shows "\<exists>M' \<in> set (nodes (setStmts (stmts[i := makeDecl lhs rhs]) N)). hosts c2 M'"
proof -
  let ?stmts' = "stmts[i := makeDecl lhs rhs]"
  let ?N' = "setStmts ?stmts' N"
  obtain pre where pre: "kids N = pre @ stmts" "kids ?N' = pre @ ?stmts'"
    using stmts_kids [OF N] by blast
  have dm: "makeDecl lhs rhs \<in> set ?stmts'" using i by (simp add: set_update_memI)
  from M show ?thesis
  proof (cases rule: nodes_cases)
    case 1
    have "\<And>s. s \<in> set stmts \<Longrightarrow> anchored c2 s \<Longrightarrow> s \<in> set ?stmts'"
    proof -
      fix s assume s: "s \<in> set stmts" "anchored c2 s"
      then have "s \<noteq> stmts ! i" using A ne by (auto simp: anchored_def)
      then show "s \<in> set ?stmts'" using s(1) by (rule set_update_mem [rotated])
    qed
    then have "hosts c2 ?N'" using hosts_setStmts [OF _ N] h 1 by blast
    then show ?thesis using nodes_self by blast
  next
    case (2 k)
    show ?thesis
    proof (cases "k = stmts ! i")
      case True
      have na: "\<not> isAssign M" using hosts_shape [OF h] by simp
      from 2(2) [unfolded True A] na obtain k' where "k' \<in> set (lhs @ rhs)" "M \<in> set (nodes k')"
        by (rule nodes_Assign_inner)
      then have "M \<in> set (nodes (makeDecl lhs rhs))" by (rule nodes_makeDecl)
      moreover have "makeDecl lhs rhs \<in> set (kids ?N')" using dm pre(2) by simp
      ultimately have "M \<in> set (nodes ?N')" using nodes_kid by blast
      then show ?thesis using h by blast
    next
      case False
      have "k \<in> set pre \<or> k \<in> set stmts" using 2(1) pre(1) by auto
      then have "k \<in> set (kids ?N')"
        using False pre(2) set_update_mem [of k stmts i] by auto
      then have "M \<in> set (nodes ?N')" using 2(2) nodes_kid by blast
      then show ?thesis using h by blast
    qed
  qed
qed

lemma addrs_makeDecl: "addrs (makeDecl lhs rhs) = concat (map addrs (lhs @ rhs))"
  by (subst addrs_Cons_kids) (simp add: makeDecl_def opt_def)

lemma addrs_Assign: "addrs (AssignStmt a lhs t rhs) = a # concat (map addrs (lhs @ rhs))"
  by (subst addrs_Cons_kids) (simp add: opt_def)

lemma addrs_Labeled: "addrs (LabeledStmt l lab s) = l # addrs lab @ addrs s"
  by (subst addrs_Cons_kids) (simp add: opt_def)

lemma Inv_shrink:
  assumes m: "mset (addrs root') + {#a#} = mset (addrs root)"
    and I: "Inv root (c # cs) nx"
    and p: "\<And>c2. c2 \<in> set cs \<Longrightarrow> pending c2 root'"
  shows "Inv root' cs nx"
proof -
  have "mset (addrs root') \<subseteq># mset (addrs root)"
    using m by (metis mset_subset_eq_add_left)
  moreover have "distinct (addrs root)" using I by (simp add: Inv_def)
  ultimately have "distinct (addrs root') \<and> set (addrs root') \<subseteq> set (addrs root)"
    by (rule distinct_mset_sub)
  then show ?thesis using I p by (auto simp: Inv_def)
qed

lemma addrs_list_node:
  assumes "stmtsOf N = Some stmts" "kids N = pre @ stmts" "kids (setStmts L N) = pre @ L"
  shows "mset (addrs (setStmts L N)) + mset (concat (map addrs stmts))
           = mset (addrs N) + mset (concat (map addrs L))"
  using assms
  by (simp add: addrs_Cons_kids [of N] addrs_Cons_kids [of "setStmts L N"])

lemma mset_cancel1:
  fixes S :: "'a multiset"
  assumes "S' + A = S + D" "A = D + {#a#}"
  shows "S' + {#a#} = S"
  using assms by simp

lemma mset_cancel2:
  fixes S :: "'a multiset"
  assumes "X + S = N + S'" "S' + {#a#} = S"
  shows "X + {#a#} = N"
  using assms(1) unfolding assms(2) [symmetric] by simp

lemma mset_cancel3:
  fixes S :: "'a multiset"
  assumes "R' + N = R + X" "X + {#a#} = N"
  shows "R' + {#a#} = R"
  using assms(1) unfolding assms(2) [symmetric] by simp

lemma Inv_head:
  assumes "Inv root (c # cs) nx"
  shows "distinct (addrs root)" "pending c root"
    "\<And>c2. c2 \<in> set cs \<Longrightarrow> c_assign c2 \<noteq> c_assign c"
    "\<And>c2. c2 \<in> set cs \<Longrightarrow> pending c2 root"
    "\<And>a. a \<in> set (addrs root) \<Longrightarrow> a < nx"
proof -
  show "distinct (addrs root)" "pending c root" using assms by (simp_all add: Inv_def)
  have "c_assign c \<notin> c_assign ` set cs" using assms by (simp add: Inv_def)
  then show "\<And>c2. c2 \<in> set cs \<Longrightarrow> c_assign c2 \<noteq> c_assign c" by (metis imageI)
  show "\<And>c2. c2 \<in> set cs \<Longrightarrow> pending c2 root" using assms by (simp add: Inv_def)
  show "\<And>a. a \<in> set (addrs root) \<Longrightarrow> a < nx" using assms by (simp add: Inv_def)
qed

lemma step_nonMixed:
  assumes I: "Inv root (c # cs) nx" and k: "c_kind c = None"
  shows "\<exists>root'. applyNonMixed c root = Inr root' \<and> Inv root' cs nx"
proof -
  have d: "distinct (addrs root)" and p: "pending c root"
    and ne: "\<And>c2. c2 \<in> set cs \<Longrightarrow> c_assign c2 \<noteq> c_assign c"
    and ps: "\<And>c2. c2 \<in> set cs \<Longrightarrow> pending c2 root"
    using Inv_head [OF I] by blast+
  obtain N lid stmts s lhs t rhs where
    f: "c_list c = Some lid" "getAt lid root = Some N" "stmtsOf N = Some stmts"
    "s \<in> set stmts" "anchored c s" "N \<in> set (nodes root)" "s \<in> set (nodes root)"
    "getAt (c_assign c) root = Some (AssignStmt (c_assign c) lhs t rhs)"
    "compat (c_kind c) lhs"
    "(c_ptr c = None \<and> s = AssignStmt (c_assign c) lhs t rhs)
      \<or> (\<exists>l lab. c_ptr c = Some l
            \<and> getAt l root = Some (LabeledStmt l lab (AssignStmt (c_assign c) lhs t rhs)))"
    "AssignStmt (c_assign c) lhs t rhs \<in> set (nodes s)"
    by (rule footprint [OF p d]) (rule that)
  let ?a = "c_assign c"
  let ?A = "AssignStmt ?a lhs t rhs"
  let ?decl = "makeDecl lhs rhs"
  have ids: "list_all isIdent lhs" using f(9) k by (simp add: compat_def)
  have da: "derefAssign ?a root = Some (lhs, t, rhs)" using f(8) by (simp add: derefAssign_def)
  from f(10) show ?thesis
  proof
    assume u: "c_ptr c = None \<and> s = ?A"
    have dl: "derefList (c_list c) root = Inr stmts" using f(1,2,3) by (simp add: derefList_def)
    obtain i where i: "indexStmt stmts (Some ?a) = Some i"
      using indexStmt_mem [OF f(4)] u by auto
    have il: "i < length stmts" and ia: "addrOf (stmts ! i) = Some ?a"
      using indexStmt_Some [OF i] by simp_all
    obtain pre where pre: "kids N = pre @ stmts"
        "\<And>L. kids (setStmts L N) = pre @ L"
      using stmts_kids [OF f(3)] by blast
    have "stmts ! i \<in> set (kids N)" using il pre(1) by simp
    then have "stmts ! i \<in> set (nodes root)"
      using nodes_kid nodes_self nodes_trans [OF _ f(6)] by blast
    then have si: "stmts ! i = ?A" using getAt_unique [OF _ ia d] f(8) by simp
    let ?root' = "updAt lid (setStmts (stmts[i := ?decl])) root"
    have ap: "applyNonMixed c root = Inr ?root'"
      using da ids u dl i f(1) by (simp add: applyNonMixed_def Let_def)
    have e1: "mset (addrs ?root') + mset (addrs N)
                = mset (addrs root) + mset (addrs (setStmts (stmts[i := ?decl]) N))"
      using mset_addrs_updAt [OF f(2) d] .
    have e2: "mset (addrs (setStmts (stmts[i := ?decl]) N)) + mset (concat (map addrs stmts))
           = mset (addrs N) + mset (concat (map addrs (stmts[i := ?decl])))"
      using addrs_list_node [OF f(3) pre(1) pre(2)] .
    have e3: "mset (concat (map addrs (stmts[i := ?decl]))) + mset (addrs ?A)
       = mset (concat (map addrs stmts)) + mset (addrs ?decl)"
      using mset_addrs_update [OF il, of ?decl] si by simp
    have e4: "mset (addrs ?A) = mset (addrs ?decl) + {#?a#}"
      by (simp add: addrs_Assign addrs_makeDecl)
    have e5: "mset (concat (map addrs (stmts[i := ?decl]))) + {#?a#} = mset (concat (map addrs stmts))"
      using e3 e4 by (rule mset_cancel1)
    have e6: "mset (addrs (setStmts (stmts[i := ?decl]) N)) + {#?a#} = mset (addrs N)"
      using e2 e5 by (rule mset_cancel2)
    have m: "mset (addrs ?root') + {#?a#} = mset (addrs root)"
      using e1 e6 by (rule mset_cancel3)
    have "\<And>c2. c2 \<in> set cs \<Longrightarrow> pending c2 ?root'"
    proof -
      fix c2 assume c2: "c2 \<in> set cs"
      have "pending c2 ?root' \<or> False"
      proof (rule pending_updAt [OF d f(2) _ ps [OF c2]])
        show "\<And>m. isIdent (setStmts (stmts[i := ?decl]) m) = isIdent m"
          by (case_tac m) simp_all
        show "\<not> leadsTo c2 N" using leadsTo_stmtsOf f(3) by fastforce
        show "\<And>M. M \<in> set (nodes N) \<Longrightarrow> hosts c2 M \<Longrightarrow>
            (\<exists>N' \<in> set (nodes (setStmts (stmts[i := ?decl]) N)). hosts c2 N') \<or> False"
          using survive_list [OF f(3) il si ne [OF c2]] by blast
      qed
      then show "pending c2 ?root'" by simp
    qed
    then have "Inv ?root' cs nx" using Inv_shrink [OF m I] by blast
    then show ?thesis using ap by blast
  next
    assume "\<exists>l lab. c_ptr c = Some l \<and> getAt l root = Some (LabeledStmt l lab ?A)"
    then obtain l lab where l: "c_ptr c = Some l" "getAt l root = Some (LabeledStmt l lab ?A)"
      by blast
    let ?L = "LabeledStmt l lab ?A"
    let ?root' = "updAt l (setLabeled ?decl) root"
    have ap: "applyNonMixed c root = Inr ?root'"
      using da ids l by (simp add: applyNonMixed_def Let_def)
    have e1: "mset (addrs ?root') + mset (addrs ?L)
                = mset (addrs root) + mset (addrs (setLabeled ?decl ?L))"
      using mset_addrs_updAt [OF l(2) d] .
    have m: "mset (addrs ?root') + {#?a#} = mset (addrs root)"
      using e1 by (simp add: addrs_Labeled addrs_Assign addrs_makeDecl)
    have "\<And>c2. c2 \<in> set cs \<Longrightarrow> pending c2 ?root'"
    proof -
      fix c2 assume c2: "c2 \<in> set cs"
      have "pending c2 ?root' \<or> False"
      proof (rule pending_updAt [OF d l(2) _ ps [OF c2]])
        show "\<And>m. isIdent (setLabeled ?decl m) = isIdent m"
          by (case_tac m) simp_all
        show "\<not> leadsTo c2 ?L" using ne [OF c2] by simp
        show "\<And>M. M \<in> set (nodes ?L) \<Longrightarrow> hosts c2 M \<Longrightarrow>
            (\<exists>N' \<in> set (nodes (setLabeled ?decl ?L)). hosts c2 N') \<or> False"
          using survive_label by fastforce
      qed
      then show "pending c2 ?root'" by simp
    qed
    then have "Inv ?root' cs nx" using Inv_shrink [OF m I] by blast
    then show ?thesis using ap by blast
  qed
qed

lemma mixedLoop_total:
  assumes "compat (Some ks) lhs"
  shows "\<exists>lhs' after tc' nx'. mixedLoop ks lhs tc nx = Inr (lhs', after, tc', nx')"
proof -
  have a: "list_all2 (\<lambda>k e. k = ASSIGN \<or> isIdent e) ks lhs"
    using assms by (simp add: compat_def)
  have l: "length ks = length lhs" using a by (rule list_all2_lengthD)
  have "\<forall>j<length lhs. ks ! j = VAR \<longrightarrow> isIdent (lhs ! j)"
    using list_all2_nthD2 [OF a] by fastforce
  then show ?thesis using mixedLoop_spec [OF l] by blast
qed

lemma mixedLoop_keeps:
  assumes "mixedLoop ks lhs tc nx = Inr (lhs', after, r)" "e \<in> set lhs"
  shows "e \<in> set lhs' \<or> (\<exists>s \<in> set after. e \<in> set (kids s))"
  using assms
proof (induction ks lhs tc nx arbitrary: lhs' after r rule: mixedLoop.induct)
  case (1 ks tc nx)
  then show ?case by simp
next
  case (2 e es tc nx)
  then show ?case by simp
next
  case (3 k ks e0 es tc nx)
  show ?case
  proof (cases "k = ILLEGAL")
    case True
    then obtain l1 a1 r1 where m: "mixedLoop ks es tc nx = Inr (l1, a1, r1)"
        and r: "lhs' = e0 # l1" "after = a1"
      using "3.prems"(1) by (auto split: sum.splits)
    show ?thesis using "3.IH"(1) [OF True m] "3.prems"(2) r by auto
  next
    case False
    note nI = False
    show ?thesis
    proof (cases "k = VAR")
      case True
      then obtain l1 a1 r1 where m: "mixedLoop ks es (Suc tc) nx = Inr (l1, a1, r1)"
          and r: "after = makeDecl [e0] [newTemp tc] # a1" "lhs' = newTemp tc # l1"
          and i: "isIdent e0"
        using "3.prems"(1) nI by (auto split: sum.splits if_splits)
      show ?thesis using "3.IH"(2) [OF nI True i m] "3.prems"(2) r by (auto simp: makeDecl_def)
    next
      case False
      then obtain l1 a1 r1 where m: "mixedLoop ks es (Suc tc) (Suc nx) = Inr (l1, a1, r1)"
          and r: "after = AssignStmt nx [e0] ASSIGN [newTemp tc] # a1" "lhs' = newTemp tc # l1"
        using "3.prems"(1) nI by (auto split: sum.splits if_splits)
      show ?thesis using "3.IH"(3) [OF nI False m] "3.prems"(2) r by auto
    qed
  qed
qed

lemma addrs_newTemp [simp]: "addrs (newTemp tc) = []"
  by (subst addrs_Cons_kids) (simp add: newTemp_def opt_def)

lemma mset_add_both:
  fixes L1 :: "'a multiset"
  assumes "L1 + AF = Les + New"
  shows "(E0 + L1) + AF = (E0 + Les) + New"
  using assms by (simp add: add.assoc)

lemma mset_add_fresh:
  fixes L1 :: "'a multiset"
  assumes "L1 + AF = Les + New'" "New = add_mset nx New'"
  shows "L1 + (add_mset nx (E0 + AF)) = (E0 + Les) + New"
proof -
  have "L1 + (add_mset nx (E0 + AF)) = add_mset nx (E0 + (L1 + AF))"
    by (simp add: add.left_commute)
  then show ?thesis unfolding assms by (simp add: add.assoc)
qed

lemma mset_sub_add:
  fixes L1 :: "'a multiset"
  assumes "L1 \<subseteq># Les"
  shows "E0 + L1 \<subseteq># E0 + Les" "L1 \<subseteq># E0 + Les"
  using assms by (simp_all add: subset_mset.add_increasing)

lemma addrs_Ident [simp]: "addrs (Ident p name) = []"
  by (subst addrs_Cons_kids) (simp add: opt_def)

lemma addrs_isIdent: "isIdent e \<Longrightarrow> addrs e = []"
  by (cases e) simp_all

lemma mixedLoop_addrs:
  assumes "mixedLoop ks lhs tc nx = Inr (lhs', after, tc', nx')"
  shows "nx \<le> nx' \<and> mset (concat (map addrs lhs')) + mset (concat (map addrs after))
           = mset (concat (map addrs lhs)) + mset [nx..<nx']
         \<and> mset (concat (map addrs lhs')) \<subseteq># mset (concat (map addrs lhs))"
  using assms
proof (induction ks lhs tc nx arbitrary: lhs' after tc' nx' rule: mixedLoop.induct)
  case (1 ks tc nx)
  then show ?case by simp
next
  case (2 e es tc nx)
  then show ?case by simp
next
  case (3 k ks e0 es tc nx)
  show ?case
  proof (cases "k = ILLEGAL")
    case True
    then obtain l1 a1 where m: "mixedLoop ks es tc nx = Inr (l1, a1, tc', nx')"
        and r: "lhs' = e0 # l1" "after = a1"
      using "3.prems"(1) by (auto split: sum.splits)
    note IH = "3.IH"(1) [OF True m]
    have le: "nx \<le> nx'" using IH by (rule conjunct1)
    have e: "mset (concat (map addrs l1)) + mset (concat (map addrs a1))
               = mset (concat (map addrs es)) + mset [nx..<nx']"
      using IH by (rule conjunct2 [THEN conjunct1])
    have s: "mset (concat (map addrs l1)) \<subseteq># mset (concat (map addrs es))"
      using IH by (rule conjunct2 [THEN conjunct2])
    have "(mset (addrs e0) + mset (concat (map addrs l1))) + mset (concat (map addrs a1))
               = (mset (addrs e0) + mset (concat (map addrs es))) + mset [nx..<nx']"
      using e by (rule mset_add_both)
    then have e': "mset (concat (map addrs lhs')) + mset (concat (map addrs after))
           = mset (concat (map addrs (e0 # es))) + mset [nx..<nx']"
      unfolding r by simp
    have "mset (addrs e0) + mset (concat (map addrs l1))
            \<subseteq># mset (addrs e0) + mset (concat (map addrs es))"
      using s by (rule mset_sub_add(1))
    then have s': "mset (concat (map addrs lhs')) \<subseteq># mset (concat (map addrs (e0 # es)))"
      unfolding r by simp
    show ?thesis using le e' s' by blast
  next
    case False
    note nI = False
    show ?thesis
    proof (cases "k = VAR")
      case True
      then obtain l1 a1 where m: "mixedLoop ks es (Suc tc) nx = Inr (l1, a1, tc', nx')"
          and r: "after = makeDecl [e0] [newTemp tc] # a1" "lhs' = newTemp tc # l1"
          and i: "isIdent e0"
        using "3.prems"(1) nI by (auto split: sum.splits if_splits)
      note IH = "3.IH"(2) [OF nI True i m]
      have z: "addrs e0 = []" using i by (rule addrs_isIdent)
      have c: "concat (map addrs lhs') = concat (map addrs l1)"
        "concat (map addrs after) = concat (map addrs a1)"
        "concat (map addrs (e0 # es)) = concat (map addrs es)"
        unfolding r by (simp_all add: addrs_makeDecl z)
      show ?thesis unfolding c using IH .
    next
      case False
      then obtain l1 a1 where m: "mixedLoop ks es (Suc tc) (Suc nx) = Inr (l1, a1, tc', nx')"
          and r: "after = AssignStmt nx [e0] ASSIGN [newTemp tc] # a1" "lhs' = newTemp tc # l1"
        using "3.prems"(1) nI by (auto split: sum.splits if_splits)
      note IH = "3.IH"(3) [OF nI False m]
      have lt: "Suc nx \<le> nx'" using IH by (rule conjunct1)
      have e: "mset (concat (map addrs l1)) + mset (concat (map addrs a1))
               = mset (concat (map addrs es)) + mset [Suc nx..<nx']"
        using IH by (rule conjunct2 [THEN conjunct1])
      have s: "mset (concat (map addrs l1)) \<subseteq># mset (concat (map addrs es))"
        using IH by (rule conjunct2 [THEN conjunct2])
      have u: "mset [nx..<nx'] = add_mset nx (mset [Suc nx..<nx'])"
        using lt by (simp add: upt_conv_Cons)
      have "mset (concat (map addrs l1))
              + add_mset nx (mset (addrs e0) + mset (concat (map addrs a1)))
            = (mset (addrs e0) + mset (concat (map addrs es))) + mset [nx..<nx']"
        using e u by (rule mset_add_fresh)
      then have e': "mset (concat (map addrs lhs')) + mset (concat (map addrs after))
           = mset (concat (map addrs (e0 # es))) + mset [nx..<nx']"
        unfolding r by (simp add: addrs_Assign)
      have "mset (concat (map addrs l1)) \<subseteq># mset (addrs e0) + mset (concat (map addrs es))"
        using s by (rule mset_sub_add(2))
      then have s': "mset (concat (map addrs lhs')) \<subseteq># mset (concat (map addrs (e0 # es)))"
        unfolding r by simp
      have le: "nx \<le> nx'" using lt by simp
      show ?thesis using le e' s' by blast
    qed
  qed
qed

lemma survive_splice:
  assumes N: "stmtsOf N = Some stmts" and sub: "set stmts \<subseteq> set L"
    and M: "M \<in> set (nodes N)" and h: "hosts c2 M"
  shows "\<exists>M' \<in> set (nodes (setStmts L N)). hosts c2 M'"
proof -
  obtain pre where pre: "kids N = pre @ stmts" "kids (setStmts L N) = pre @ L"
    using stmts_kids [OF N] by blast
  from M show ?thesis
  proof (cases rule: nodes_cases)
    case 1
    have "hosts c2 (setStmts L N)" using hosts_setStmts [OF _ N] h 1 sub by blast
    then show ?thesis using nodes_self by blast
  next
    case (2 k)
    have "k \<in> set (kids (setStmts L N))" using 2(1) pre sub by auto
    then have "M \<in> set (nodes (setStmts L N))" using 2(2) nodes_kid by blast
    then show ?thesis using h by blast
  qed
qed

lemma mset_sub_cancel:
  fixes M :: "'a multiset"
  assumes "M1 + L = M + L'" "L' \<subseteq># L"
  shows "M1 \<subseteq># M"
proof -
  obtain K where K: "L = L' + K" using assms(2) by (auto simp: mset_subset_eq_exists_conv)
  have "M1 + K = M" using assms(1) unfolding K by simp
  then show ?thesis by (metis mset_subset_eq_add_left)
qed

lemma mset_splice:
  "mset (concat (map addrs (take n xs @ ys @ drop n xs)))
     = mset (concat (map addrs xs)) + mset (concat (map addrs ys))"
proof -
  have "mset (concat (map addrs xs)) = mset (concat (map addrs (take n xs @ drop n xs)))"
    by simp
  also have "\<dots> = mset (concat (map addrs (take n xs))) + mset (concat (map addrs (drop n xs)))"
    by (simp only: map_append concat_append mset_append)
  finally show ?thesis by (simp add: add.assoc add.left_commute)
qed


lemma mixedLoop_compat:
  assumes "compat (Some ks) lhs"
  shows "length ks = length lhs"
    and "mixedLoop ks lhs tc nx
           = Inr (newLhs ks lhs tc, afterStmts ks lhs tc nx, tc + live ks (length lhs),
                  nx + reassigned ks (length lhs))"
proof -
  have a: "list_all2 (\<lambda>k e. k = ASSIGN \<or> isIdent e) ks lhs"
    using assms by (simp add: compat_def)
  show l: "length ks = length lhs" using a by (rule list_all2_lengthD)
  have "\<forall>j<length lhs. ks ! j = VAR \<longrightarrow> isIdent (lhs ! j)"
    using list_all2_nthD2 [OF a] by fastforce
  then show "mixedLoop ks lhs tc nx
           = Inr (newLhs ks lhs tc, afterStmts ks lhs tc nx, tc + live ks (length lhs),
                  nx + reassigned ks (length lhs))"
    by (rule mixedLoop_spec [OF l])
qed

lemma splice_at:
  assumes "i < length xs" "\<And>y. y \<in> set (take i xs) \<union> set (drop (Suc i) xs) \<Longrightarrow> g y = y"
  shows "take (Suc i) (map g xs) @ ys @ drop (Suc i) (map g xs)
           = take i xs @ [g (xs ! i)] @ ys @ drop (Suc i) xs"
proof -
  have "take (Suc i) (map g xs) = map g (take i xs @ [xs ! i])"
    using assms(1) by (simp add: take_map take_Suc_conv_app_nth)
  also have "\<dots> = take i xs @ [g (xs ! i)]" using assms(2) by (simp add: map_idI)
  finally have t: "take (Suc i) (map g xs) = take i xs @ [g (xs ! i)]" .
  have d: "drop (Suc i) (map g xs) = drop (Suc i) xs"
    using assms(2) by (simp add: drop_map map_idI)
  show ?thesis by (simp add: t d)
qed

lemma addrs_elsewhere:
  assumes d: "distinct (concat (map addrs xs))" and i: "i < length xs"
    and a: "a \<in> set (addrs (xs ! i))"
    and y: "y \<in> set (take i xs) \<union> set (drop (Suc i) xs)"
  shows "a \<notin> set (addrs y)"
proof -
  have "distinct (concat (map addrs (take i xs @ xs ! i # drop (Suc i) xs)))"
    using d id_take_nth_drop [OF i] by simp
  then show ?thesis using a y by auto
qed

lemma isIdent_setLhsTok [simp]: "isIdent (setLhsTok lhs t m) = isIdent m"
  by (cases m) simp_all

lemma isIdent_setStmts [simp]: "isIdent (setStmts L m) = isIdent m"
  by (cases m) simp_all

lemma leadsTo_addr: "leadsTo c s \<Longrightarrow> \<exists>r. addrOf s = Some r"
  by (cases s) auto

lemma Inv_grow:
  assumes m: "mset (addrs root') = mset (addrs root) + mset [nx..<nx']"
    and le: "nx \<le> nx'"
    and I: "Inv root (c # cs) nx"
    and p: "\<And>c2. c2 \<in> set cs \<Longrightarrow> pending c2 root'"
  shows "Inv root' cs nx'"
proof -
  have d: "distinct (addrs root)" and f: "\<And>a. a \<in> set (addrs root) \<Longrightarrow> a < nx"
    using Inv_head [OF I] by blast+
  have m': "mset (addrs root') = mset (addrs root @ [nx..<nx'])" using m by simp
  have "\<And>a. a \<in> set (addrs root) \<Longrightarrow> a \<notin> set [nx..<nx']" using f by fastforce
  then have "distinct (addrs root @ [nx..<nx'])" using d by auto
  then have d': "distinct (addrs root')" using mset_eq_imp_distinct_iff [OF m'] by simp
  have "set (addrs root') = set (addrs root @ [nx..<nx'])" using m' by (rule mset_eq_setD)
  moreover have "\<And>a. a \<in> set (addrs root) \<Longrightarrow> a < nx'" using f le by fastforce
  ultimately have "\<forall>a \<in> set (addrs root'). a < nx'" by auto
  moreover have "distinct (map c_assign cs)" using I by (simp add: Inv_def)
  ultimately show ?thesis using d' p by (simp add: Inv_def)
qed


lemma mset_chain:
  fixes M :: "'a multiset"
  assumes "M2 + U = M1 + X" "X + S = U + (S + AF)" "M1 + L = M + L'" "L' + AF = L + New"
  shows "M2 = M + New"
proof -
  have x: "X = U + AF" using assms(2) by (simp add: add.assoc [symmetric])
  have "M2 = M1 + AF" using assms(1) unfolding x by (simp add: add.assoc [symmetric])
  then have "M2 + L = (M1 + L) + AF" by (simp add: add.assoc add.commute)
  also have "\<dots> = M + (L' + AF)" unfolding assms(3) by (simp add: add.assoc)
  also have "\<dots> = (M + New) + L" unfolding assms(4) by (simp add: add.assoc add.commute)
  finally show ?thesis by simp
qed

lemma set_splice: "set xs \<subseteq> set (take n xs @ ys @ drop n xs)"
proof -
  have "set xs = set (take n xs) \<union> set (drop n xs)" by (metis append_take_drop_id set_append)
  then show ?thesis by auto
qed

lemma mset_drop_head:
  fixes M :: "'a multiset"
  assumes "M1 + add_mset a (L + R) = M + add_mset a (L' + R)"
  shows "M1 + L = M + L'"
  using assms by (simp add: add.assoc [symmetric])

lemma step_mixed_detail:
  assumes I: "Inv root (c # cs) nx" and k: "c_kind c = Some ks"
  shows "\<exists>lid N stmts i lhs t rhs.
     c_list c = Some lid \<and> getAt lid root = Some N \<and> stmtsOf N = Some stmts
     \<and> indexStmt stmts (c_ref c) = Some i \<and> leadsTo c (stmts ! i)
     \<and> derefAssign (c_assign c) root = Some (lhs, t, rhs) \<and> length ks = length lhs
     \<and> (\<exists>root2. applyMixed c tc nx root
                   = Inr (root2, tc + live ks (length lhs), nx + reassigned ks (length lhs))
           \<and> Inv root2 cs (nx + reassigned ks (length lhs))
           \<and> derefAssign (c_assign c) root2 = Some (newLhs ks lhs tc, DEFINE, rhs)
           \<and> derefList (Some lid) root2
               = Inr (take i stmts
                      @ [updAt (c_assign c) (setLhsTok (newLhs ks lhs tc) DEFINE) (stmts ! i)]
                      @ afterStmts ks lhs tc nx @ drop (Suc i) stmts))"
proof -
  have d: "distinct (addrs root)" and p: "pending c root"
    and ne: "\<And>c2. c2 \<in> set cs \<Longrightarrow> c_assign c2 \<noteq> c_assign c"
    and ps: "\<And>c2. c2 \<in> set cs \<Longrightarrow> pending c2 root"
    using Inv_head [OF I] by blast+
  obtain N lid stmts s lhs t rhs where
    f: "c_list c = Some lid" "getAt lid root = Some N" "stmtsOf N = Some stmts"
    "s \<in> set stmts" "anchored c s" "N \<in> set (nodes root)" "s \<in> set (nodes root)"
    "getAt (c_assign c) root = Some (AssignStmt (c_assign c) lhs t rhs)"
    "compat (c_kind c) lhs"
    "(c_ptr c = None \<and> s = AssignStmt (c_assign c) lhs t rhs)
      \<or> (\<exists>l lab. c_ptr c = Some l
            \<and> getAt l root = Some (LabeledStmt l lab (AssignStmt (c_assign c) lhs t rhs)))"
    "AssignStmt (c_assign c) lhs t rhs \<in> set (nodes s)"
    by (rule footprint [OF p d]) (rule that)
  let ?a = "c_assign c"
  let ?A = "AssignStmt ?a lhs t rhs"
  have da: "derefAssign ?a root = Some (lhs, t, rhs)" using f(8) by (simp add: derefAssign_def)
  define lhs' where "lhs' = newLhs ks lhs tc"
  define after where "after = afterStmts ks lhs tc nx"
  define tc' where "tc' = tc + live ks (length lhs)"
  define nx' where "nx' = nx + reassigned ks (length lhs)"
  have cp: "compat (Some ks) lhs" using f(9) k by simp
  have len: "length ks = length lhs" using cp by (rule mixedLoop_compat(1))
  have ml: "mixedLoop ks lhs tc nx = Inr (lhs', after, tc', nx')"
    unfolding lhs'_def after_def tc'_def nx'_def using cp by (rule mixedLoop_compat(2))
  note ma = mixedLoop_addrs [OF ml]
  let ?F = "setLhsTok lhs' DEFINE"
  let ?u = "updAt ?a ?F"
  let ?root1 = "?u root"
  have e1: "mset (addrs ?root1) + mset (addrs ?A) = mset (addrs root) + mset (addrs (?F ?A))"
    using mset_addrs_updAt [OF f(8) d] .
  have e1': "mset (addrs ?root1) + mset (concat (map addrs lhs))
               = mset (addrs root) + mset (concat (map addrs lhs'))"
    by (rule mset_drop_head [of _ ?a _ "mset (concat (map addrs rhs))"])
       (use e1 in \<open>simp add: addrs_Assign\<close>)
  have sub1: "mset (addrs ?root1) \<subseteq># mset (addrs root)"
    using mset_sub_cancel [OF e1'] ma by blast
  have d1: "distinct (addrs ?root1)" using distinct_mset_sub [OF sub1 d] by simp
  have sk: "s \<in> set (kids N)" using stmts_kids [OF f(3)] f(4) by auto
  have "size ?A \<le> size s" using size_nodes [OF f(11)] .
  then have sz: "size ?A < size N" using kids_size [OF sk] by simp
  have nA: "N \<notin> set (nodes ?A)" using size_nodes [of N ?A] sz by auto
  have lidN: "addrOf N = Some lid" using getAt_nodes [OF f(2)] by simp
  have la: "lid \<noteq> ?a" using f(2) f(8) nA nodes_self [of ?A] by auto
  have X: "\<And>M. M \<in> set (nodes root) \<Longrightarrow> addrOf M = Some ?a \<Longrightarrow> M = ?A"
    using getAt_unique [OF _ _ d] f(8) by fastforce
  have Nu: "?u N \<in> set (nodes ?root1)"
    using nodes_updAt_old [OF f(6), of ?a ?F] X nA by blast
  have au: "\<And>m. addrOf (?u m) = addrOf m" by (rule addrOf_updAt) simp
  have g1: "getAt lid ?root1 = Some (?u N)" using getAt_unique [OF Nu _ d1] au lidN by simp
  let ?stmts1 = "map ?u stmts"
  have s1: "stmtsOf (?u N) = Some ?stmts1"
    using stmtsOf_updAt [of N ?a stmts ?F] lidN la f(3) by simp
  have dl1: "derefList (Some lid) ?root1 = Inr ?stmts1"
    using g1 s1 by (simp add: derefList_def)
  have dl: "derefList (c_list c) ?root1 = Inr ?stmts1"
    using f(1) dl1 by simp
  obtain r where r: "addrOf s = Some r" using leadsTo_addr [of c s] f(5) by (auto simp: anchored_def)
  have cr: "c_ref c = Some r" using f(5) r by (simp add: anchored_def)
  have ix: "indexStmt ?stmts1 (c_ref c) = indexStmt stmts (c_ref c)"
    by (rule indexStmt_map) (rule au)
  obtain i where i0: "indexStmt stmts (c_ref c) = Some i"
    using indexStmt_mem [OF f(4) r] cr by auto
  have i: "indexStmt ?stmts1 (c_ref c) = Some i" using ix i0 by simp
  have il: "i < length stmts" and ia: "addrOf (stmts ! i) = Some r"
    using indexStmt_Some [OF i0] cr by simp_all
  have "stmts ! i \<in> set (kids N)" using il stmts_kids [OF f(3)] by auto
  then have "stmts ! i \<in> set (nodes root)"
    using nodes_kid nodes_self nodes_trans [OF _ f(6)] by blast
  then have "getAt r root = Some (stmts ! i)" using ia d by (rule getAt_unique)
  moreover have "getAt r root = Some s" using f(7) r d by (rule getAt_unique)
  ultimately have si: "stmts ! i = s" by simp
  have ld: "leadsTo c (stmts ! i)" using f(5) si by (simp add: anchored_def)
  let ?L2 = "take (Suc i) ?stmts1 @ after @ drop (Suc i) ?stmts1"
  let ?root2 = "updAt lid (setStmts ?L2) ?root1"
  have ap: "applyMixed c tc nx root = Inr (?root2, tc', nx')"
    using da k ml dl i f(1) by (simp add: applyMixed_def Let_def)
  obtain pre where pre: "kids (?u N) = pre @ ?stmts1" "\<And>L. kids (setStmts L (?u N)) = pre @ L"
    using stmts_kids [OF s1] by blast
  have e2: "mset (addrs ?root2) + mset (addrs (?u N))
              = mset (addrs ?root1) + mset (addrs (setStmts ?L2 (?u N)))"
    using mset_addrs_updAt [OF g1 d1] .
  have e3: "mset (addrs (setStmts ?L2 (?u N))) + mset (concat (map addrs ?stmts1))
              = mset (addrs (?u N)) + mset (concat (map addrs ?L2))"
    using addrs_list_node [OF s1 pre(1) pre(2)] .
  have e4: "mset (concat (map addrs ?L2))
              = mset (concat (map addrs ?stmts1)) + mset (concat (map addrs after))"
    by (rule mset_splice)
  have e5: "mset (concat (map addrs lhs')) + mset (concat (map addrs after))
           = mset (concat (map addrs lhs)) + mset [nx..<nx']"
    using ma by blast
  have m: "mset (addrs ?root2) = mset (addrs root) + mset [nx..<nx']"
    using e2 e3 [unfolded e4] e1' e5 by (rule mset_chain)
  have le: "nx \<le> nx'" using ma by blast
  have "\<And>c2. c2 \<in> set cs \<Longrightarrow> pending c2 ?root2"
  proof -
    fix c2 assume c2: "c2 \<in> set cs"
    let ?Q = "\<exists>s2 \<in> set after. \<exists>M \<in> set (nodes s2). hosts c2 M"
    have st1: "pending c2 ?root1 \<or> ?Q"
    proof (rule pending_updAt [OF d f(8) _ ps [OF c2]])
      show "\<And>m. isIdent (?F m) = isIdent m" by simp
      show "\<not> leadsTo c2 ?A" using ne [OF c2] by simp
      show "\<And>M. M \<in> set (nodes ?A) \<Longrightarrow> hosts c2 M
              \<Longrightarrow> (\<exists>N' \<in> set (nodes (?F ?A)). hosts c2 N') \<or> ?Q"
      proof -
        fix M assume M: "M \<in> set (nodes ?A)" "hosts c2 M"
        have na: "\<not> isAssign M" using hosts_shape [OF M(2)] by simp
        from M(1) na obtain k' where k': "k' \<in> set (lhs @ rhs)" "M \<in> set (nodes k')"
          by (rule nodes_Assign_inner)
        have "k' \<in> set (lhs' @ rhs) \<or> (\<exists>s2 \<in> set after. k' \<in> set (kids s2))"
          using k'(1) mixedLoop_keeps [OF ml, of k'] by auto
        then show "(\<exists>N' \<in> set (nodes (?F ?A)). hosts c2 N') \<or> ?Q"
        proof
          assume "k' \<in> set (lhs' @ rhs)"
          then have "M \<in> set (nodes (?F ?A))"
            using k'(2) nodes_kid [of k' "AssignStmt ?a lhs' DEFINE rhs" M] by simp
          then show ?thesis using M(2) by blast
        next
          assume "\<exists>s2 \<in> set after. k' \<in> set (kids s2)"
          then show ?thesis using k'(2) M(2) nodes_kid by blast
        qed
      qed
    qed
    from st1 show "pending c2 ?root2"
    proof
      assume p1: "pending c2 ?root1"
      have "pending c2 ?root2 \<or> False"
      proof (rule pending_updAt [OF d1 g1 _ p1])
        show "\<And>m. isIdent (setStmts ?L2 m) = isIdent m" by simp
        show "\<not> leadsTo c2 (?u N)" using leadsTo_stmtsOf [of c2 "?u N"] s1 by auto
        show "\<And>M. M \<in> set (nodes (?u N)) \<Longrightarrow> hosts c2 M
              \<Longrightarrow> (\<exists>N' \<in> set (nodes (setStmts ?L2 (?u N))). hosts c2 N') \<or> False"
          using survive_splice [OF s1 set_splice] by blast
      qed
      then show ?thesis by simp
    next
      assume ?Q
      then obtain s2 M where Q: "s2 \<in> set after" "M \<in> set (nodes s2)" "hosts c2 M" by blast
      have "s2 \<in> set (kids (setStmts ?L2 (?u N)))" using Q(1) pre(2) by simp
      then have "M \<in> set (nodes (setStmts ?L2 (?u N)))" using Q(2) nodes_kid by blast
      then have "M \<in> set (nodes ?root2)" using nodes_updAt_new [OF g1, of "setStmts ?L2"] by blast
      then show ?thesis using Q(3) by (auto simp: pending_def)
    qed
  qed
  then have inv: "Inv ?root2 cs nx'" using Inv_grow [OF m le I] by blast
  have d2: "distinct (addrs ?root2)" using inv by (simp add: Inv_def)
  have ds: "distinct (addrs s)" using f(7) d by (rule distinct_addrs_nodes)
  have "getAt ?a s = Some ?A" using f(11) _ ds by (rule getAt_unique) simp
  then have "?F ?A \<in> set (nodes (?u s))" using nodes_updAt_new [of ?a s ?A ?F] nodes_self by blast
  moreover have "?u s \<in> set (kids (setStmts ?L2 (?u N)))"
    using f(4) set_splice [of ?stmts1 "Suc i" after] pre(2) by auto
  ultimately have "?F ?A \<in> set (nodes (setStmts ?L2 (?u N)))" using nodes_kid by blast
  then have "?F ?A \<in> set (nodes ?root2)" using nodes_updAt_new [OF g1, of "setStmts ?L2"] by blast
  then have "getAt ?a ?root2 = Some (?F ?A)" using _ d2 by (rule getAt_unique) simp
  then have da2: "derefAssign ?a ?root2 = Some (lhs', DEFINE, rhs)" by (simp add: derefAssign_def)
  have dN: "distinct (concat (map addrs stmts))"
  proof -
    obtain pre0 where "kids N = pre0 @ stmts" using stmts_kids [OF f(3)] by blast
    then show ?thesis
      using distinct_addrs_kids(1) [OF distinct_addrs_nodes [OF f(6) d]] by simp
  qed
  have ai: "?a \<in> set (addrs (stmts ! i))" using f(11) si addrs_iff by fastforce
  have "\<And>y. y \<in> set (take i stmts) \<union> set (drop (Suc i) stmts) \<Longrightarrow> ?u y = y"
    using addrs_elsewhere [OF dN il ai] by (simp add: updAt_absent)
  then have "?L2 = take i stmts @ [?u (stmts ! i)] @ after @ drop (Suc i) stmts"
    by (rule splice_at [OF il])
  then have dl2: "derefList (Some lid) ?root2
               = Inr (take i stmts @ [?u (stmts ! i)] @ after @ drop (Suc i) stmts)"
    using derefList_updAt [OF dl1, of ?L2] by simp
  show ?thesis
    using f(1,2,3) i0 ld da len ap inv da2 dl2
    unfolding lhs'_def after_def tc'_def nx'_def by blast
qed

lemma step_mixed:
  assumes I: "Inv root (c # cs) nx" and k: "c_kind c = Some ks"
  shows "\<exists>root' tc' nx'. applyMixed c tc nx root = Inr (root', tc', nx') \<and> Inv root' cs nx'"
  using step_mixed_detail [OF I k, of tc] by blast


subsection \<open>The walk keeps the shape of the tree\<close>

lemma applyAll_total:
  "Inv root cs nx \<Longrightarrow> \<exists>r. applyAll cs tc nx root = Inr r"
proof (induction cs arbitrary: root tc nx)
  case Nil
  then show ?case by simp
next
  case (Cons c cs)
  show ?case
  proof (cases "c_kind c")
    case None
    from step_nonMixed [OF Cons.prems None] obtain root' where
      r: "applyNonMixed c root = Inr root'" "Inv root' cs nx" by blast
    have "applyAll (c # cs) tc nx root = applyAll cs tc nx root'"
      using r(1) None by (simp add: applyChange_def)
    then show ?thesis using Cons.IH [OF r(2)] by simp
  next
    case (Some ks)
    from step_mixed [OF Cons.prems Some] obtain root' tc' nx' where
      r: "applyMixed c tc nx root = Inr (root', tc', nx')" "Inv root' cs nx'" by blast
    have "applyAll (c # cs) tc nx root = applyAll cs tc' nx' root'"
      using r(1) Some by (simp add: applyChange_def)
    then show ?thesis using Cons.IH [OF r(2)] by simp
  qed
qed

lemma unmarkNode_soft: "unmarkNode e = e \<or> (isIdent e \<and> isIdent (unmarkNode e))"
  by (cases e) (auto simp: unmarkNode_def)

lemma Visit_node:
  "fst (Visit fp v n x) = n
   \<or> (\<exists>a lhs t rhs t'. n = AssignStmt a lhs t rhs
         \<and> fst (Visit fp v n x) = AssignStmt a (map unmarkNode lhs) t' rhs)
   \<or> (\<exists>p k vl t e body t'. n = RangeStmt p k vl t e body
         \<and> fst (Visit fp v n x) = RangeStmt p (unmark k) (unmark vl) t' e body)"
proof (cases n)
  case (AssignStmt a lhs t rhs)
  then show ?thesis by (simp add: assignFields_eq split: prod.splits if_splits)
next
  case (RangeStmt p k vl t e body)
  then show ?thesis by (simp add: rangeFields_eq split: prod.splits if_splits)
qed simp_all

lemma soft_refl: "list_all2 (\<lambda>k k1. k1 = k \<or> (isIdent k \<and> isIdent k1)) ks ks"
  by (simp add: list_all2_same)

lemma soft_unmark:
  "list_all2 (\<lambda>k k1. k1 = k \<or> (isIdent k \<and> isIdent k1)) (opt k) (opt (unmark k))"
proof (cases k)
  case None
  then show ?thesis by (simp add: opt_def unmark_def)
next
  case (Some e)
  then show ?thesis using unmarkNode_soft [of e] by (simp add: opt_def unmark_Some)
qed

lemma Visit_kids:
  "list_all2 (\<lambda>k k1. k1 = k \<or> (isIdent k \<and> isIdent k1)) (kids n) (kids (fst (Visit fp v n x)))"
proof -
  from Visit_node [of fp v n x] consider
    "fst (Visit fp v n x) = n"
    | a lhs t rhs t' where "n = AssignStmt a lhs t rhs"
        "fst (Visit fp v n x) = AssignStmt a (map unmarkNode lhs) t' rhs"
    | p k vl t e body t' where "n = RangeStmt p k vl t e body"
        "fst (Visit fp v n x) = RangeStmt p (unmark k) (unmark vl) t' e body"
    by blast
  then show ?thesis
  proof cases
    case 1
    then show ?thesis by (simp add: soft_refl)
  next
    case 2
    have "list_all2 (\<lambda>k k1. k1 = k \<or> (isIdent k \<and> isIdent k1)) lhs (map unmarkNode lhs)"
      using unmarkNode_soft by (simp add: list_all2_map2 list_all2_same)
    then show ?thesis using 2 by (simp add: list_all2_appendI soft_refl)
  next
    case 3
    then show ?thesis by (simp add: list_all2_appendI soft_refl soft_unmark)
  qed
qed

lemma Visit_tag:
  "addrOf (fst (Visit fp v n x)) = addrOf n \<and> isAssign (fst (Visit fp v n x)) = isAssign n
   \<and> isLabeled (fst (Visit fp v n x)) = isLabeled n \<and> isIdent (fst (Visit fp v n x)) = isIdent n"
  using Visit_node [of fp v n x] by auto

lemma Walk_tag:
  "addrOf (fst (Walk fp v n x)) = addrOf n \<and> isAssign (fst (Walk fp v n x)) = isAssign n
   \<and> isLabeled (fst (Walk fp v n x)) = isLabeled n \<and> isIdent (fst (Walk fp v n x)) = isIdent n"
  using Visit_tag [of fp v n x]
  by (subst (1 2 3 4) Walk.simps) (simp add: case_prod_unfold)

lemma walkList_all2:
  "walkList f ks x = (ks', x') \<Longrightarrow> list_all2 (\<lambda>k k'. \<exists>y. k' = fst (f k y)) ks ks'"
proof (induction ks arbitrary: x ks' x')
  case Nil
  then show ?case by simp
next
  case (Cons k ks)
  then show ?case by (auto split: prod.splits) (metis fst_conv)
qed

lemma list_all2_map_eq:
  "list_all2 (\<lambda>k k'. g k' = g k) ks ks' \<Longrightarrow> map g ks' = map g ks"
  by (induction rule: list_all2_induct) auto

lemma Walk_unfold:
  assumes "Walk fp v n x = (n', x')"
  obtains n1 v2 x1 ks where "Visit fp v n x = (n1, v2, x1)"
    "walkList (Walk fp v2) (kids n1) x1 = (ks, x')" "n' = withKids n1 ks"
    "length ks = length (kids n1)" "kids n' = ks"
proof -
  obtain n1 v2 x1 where V: "Visit fp v n x = (n1, v2, x1)" by (cases "Visit fp v n x") auto
  obtain ks x2 where W: "walkList (Walk fp v2) (kids n1) x1 = (ks, x2)"
    by (cases "walkList (Walk fp v2) (kids n1) x1") auto
  have r: "n' = withKids n1 ks" "x' = x2"
    using assms V W by (simp_all add: Walk.simps [of fp v n x])
  have l: "length ks = length (kids n1)" using length_walkList [of "Walk fp v2" "kids n1" x1] W by simp
  show ?thesis using that [OF V _ r(1) l] W r l by (simp add: kids_withKids)
qed

lemma Walk_addrs: "addrs (fst (Walk fp v n x)) = addrs n"
proof (induction fp v n x rule: Walk.induct)
  case (1 fp v n x)
  obtain n' x' where W: "Walk fp v n x = (n', x')" by (cases "Walk fp v n x") auto
  from W obtain n1 v2 x1 ks where u: "Visit fp v n x = (n1, v2, x1)"
    "walkList (Walk fp v2) (kids n1) x1 = (ks, x')" "n' = withKids n1 ks"
    "length ks = length (kids n1)" "kids n' = ks"
    by (rule Walk_unfold)
  have "list_all2 (\<lambda>k k'. \<exists>y. k' = fst (Walk fp v2 k y)) (kids n1) ks"
    using walkList_all2 [OF u(2)] .
  then have "list_all2 (\<lambda>k k'. addrs k' = addrs k) (kids n1) ks"
    using "1.IH" [OF u(1) [symmetric] refl]
    by (auto simp: list_all2_conv_all_nth)
  then have a: "map addrs ks = map addrs (kids n1)" by (rule list_all2_map_eq)
  have "list_all2 (\<lambda>k k1. addrs k1 = addrs k) (kids n) (kids n1)"
    using Visit_kids [of n fp v x] u(1) addrs_isIdent
    by (auto simp: list_all2_conv_all_nth)
  then have b: "map addrs (kids n1) = map addrs (kids n)" by (rule list_all2_map_eq)
  have "addrOf n' = addrOf n" using Walk_tag [of fp v n x] W by simp
  then have "addrs n' = addrs n"
    using a b u(5) by (simp add: addrs_Cons_kids [of n'] addrs_Cons_kids [of n])
  then show ?case using W by simp
qed


subsection \<open>Trees that follow the grammar\<close>

text \<open>
  Where the syntax tree of the language can hold a statement: an assignment or a
  labeled statement stands in a statement list, under a label, or (the assignment
  only) in the header of a for, if, switch or type switch statement or as the
  \<^verbatim>\<open>Comm\<close> of a communication clause. The fields of every other node are expressions,
  blocks and clauses. \<open>kidsOK\<close> says so of the children of one node, \<open>grammatical\<close>
  of every node of a tree.
\<close>

definition stmtLike :: "node \<Rightarrow> bool" where
  "stmtLike n \<longleftrightarrow> isAssign n \<or> isLabeled n"

fun kidsOK :: "node \<Rightarrow> bool" where
  "kidsOK (BlockStmt a l) = True"
| "kidsOK (CaseClause a es body) = list_all (\<lambda>e. \<not> stmtLike e) es"
| "kidsOK (CommClause a c body) = list_all (\<lambda>s. \<not> isLabeled s) (opt c)"
| "kidsOK (LabeledStmt a lab s) = (\<not> stmtLike lab)"
| "kidsOK (ForStmt i c p body) = list_all (\<lambda>k. \<not> isLabeled k) (kids (ForStmt i c p body))"
| "kidsOK (IfStmt i c body e) = list_all (\<lambda>k. \<not> isLabeled k) (kids (IfStmt i c body e))"
| "kidsOK (SwitchStmt i t body) = list_all (\<lambda>k. \<not> isLabeled k) (kids (SwitchStmt i t body))"
| "kidsOK (TypeSwitchStmt i a body) =
     list_all (\<lambda>k. \<not> isLabeled k) (kids (TypeSwitchStmt i a body))"
| "kidsOK n = list_all (\<lambda>k. \<not> stmtLike k) (kids n)"

definition grammatical :: "node \<Rightarrow> bool" where
  "grammatical root \<longleftrightarrow> list_all kidsOK (nodes root)"

fun header :: "node \<Rightarrow> bool" where
  "header (ForStmt i c p body) = True"
| "header (IfStmt i c body e) = True"
| "header (SwitchStmt i t body) = True"
| "header (TypeSwitchStmt i a body) = True"
| "header n = False"

fun plain :: "node \<Rightarrow> bool" where
  "plain (Ident p name) = True"
| "plain (AssignStmt a lhs t rhs) = True"
| "plain (RangeStmt p k v t x body) = True"
| "plain (DeclStmt t names vals) = True"
| "plain (Other p ks) = True"
| "plain n = False"

lemma kidsOK_header: "header n \<Longrightarrow> kidsOK n = list_all (\<lambda>k. \<not> isLabeled k) (kids n)"
  by (cases n) simp_all

lemma kidsOK_plain: "plain n \<Longrightarrow> kidsOK n = list_all (\<lambda>k. \<not> stmtLike k) (kids n)"
  by (cases n) simp_all

lemma header_withKids [simp]: "header (withKids n ks) = header n"
  by (cases n) (auto split: prod.splits)

lemma plain_withKids [simp]: "plain (withKids n ks) = plain n"
  by (cases n) (auto split: prod.splits)

lemma grammatical_unfold:
  "grammatical n \<longleftrightarrow> kidsOK n \<and> (\<forall>k \<in> set (kids n). grammatical k)"
  unfolding grammatical_def by (subst nodes.simps) (auto simp: list_all_iff)

lemma grammatical_isIdent: "isIdent e \<Longrightarrow> grammatical e"
  by (cases e) (simp_all add: grammatical_unfold [of "Ident p name" for p name])

lemma tags_labeled:
  assumes "list_all2 (\<lambda>k k'. isAssign k' = isAssign k \<and> isLabeled k' = isLabeled k) ks ks'"
    and "list_all (\<lambda>k. \<not> isLabeled k) ks"
  shows "list_all (\<lambda>k. \<not> isLabeled k) ks'"
  using assms by (induction rule: list_all2_induct) auto

lemma tags_stmtLike:
  assumes "list_all2 (\<lambda>k k'. isAssign k' = isAssign k \<and> isLabeled k' = isLabeled k) ks ks'"
    and "list_all (\<lambda>k. \<not> stmtLike k) ks"
  shows "list_all (\<lambda>k. \<not> stmtLike k) ks'"
  using assms by (induction rule: list_all2_induct) (auto simp: stmtLike_def)

lemma kidsOK_withKids:
  assumes t: "list_all2 (\<lambda>k k'. isAssign k' = isAssign k \<and> isLabeled k' = isLabeled k) (kids n) ks'"
    and k: "kidsOK n"
  shows "kidsOK (withKids n ks')"
proof -
  have l: "length ks' = length (kids n)" using t by (simp add: list_all2_lengthD)
  have kk: "kids (withKids n ks') = ks'" using l by (rule kids_withKids)
  show ?thesis
  proof (cases "header n")
    case True
    then show ?thesis
      using tags_labeled [OF t] k kk by (simp add: kidsOK_header)
  next
    case False
    note nh = False
    show ?thesis
    proof (cases "plain n")
      case True
      then show ?thesis
        using tags_stmtLike [OF t] k kk by (simp add: kidsOK_plain)
    next
      case False
      show ?thesis
      proof (cases n)
        case (BlockStmt a l)
        then show ?thesis by simp
      next
        case (CaseClause a es body)
        have "list_all2 (\<lambda>k k'. isAssign k' = isAssign k \<and> isLabeled k' = isLabeled k)
                (take (length es) (es @ body)) (take (length es) ks')"
          using t CaseClause by (simp add: list_all2_takeI del: take_append)
        then have "list_all (\<lambda>k. \<not> stmtLike k) (take (length es) ks')"
          using tags_stmtLike k CaseClause by simp
        then show ?thesis using CaseClause by simp
      next
        case (CommClause a c body)
        show ?thesis
        proof (cases c)
          case None
          then show ?thesis using CommClause by (simp add: fill_def opt_def)
        next
          case (Some s0)
          then obtain k0 r where ks: "ks' = k0 # r" using l CommClause by (cases ks') (auto simp: opt_def)
          then show ?thesis using t k CommClause Some by (simp add: fill_def opt_def)
        qed
      next
        case (LabeledStmt a lab s)
        then obtain lab' s' where ks: "ks' = [lab', s']"
          using l by (cases ks'; cases "tl ks'") auto
        then show ?thesis using t k LabeledStmt by (simp add: one_def stmtLike_def)
      qed (use nh False in simp_all)
    qed
  qed
qed

lemma soft_tags:
  assumes "list_all2 (\<lambda>k k1. k1 = k \<or> (isIdent k \<and> isIdent k1)) ks ks1"
  shows "list_all2 (\<lambda>k k'. isAssign k' = isAssign k \<and> isLabeled k' = isLabeled k) ks ks1"
proof -
  have i: "\<And>k. isIdent k \<Longrightarrow> \<not> isAssign k \<and> \<not> isLabeled k"
    by (case_tac k) simp_all
  have "\<And>k k1. k1 = k \<or> (isIdent k \<and> isIdent k1)
           \<Longrightarrow> isAssign k1 = isAssign k \<and> isLabeled k1 = isLabeled k"
    using i by blast
  then show ?thesis by (rule list_all2_mono [OF assms])
qed

lemma plain_Visit: "fst (Visit fp v n x) \<noteq> n \<Longrightarrow> plain n \<and> plain (fst (Visit fp v n x))"
  using Visit_node [of fp v n x] by auto

lemma Visit_kidsOK:
  assumes "kidsOK n"
  shows "kidsOK (fst (Visit fp v n x))"
proof (cases "fst (Visit fp v n x) = n")
  case True
  then show ?thesis using assms by simp
next
  case False
  note p = plain_Visit [OF False]
  have "list_all (\<lambda>k. \<not> stmtLike k) (kids n)" using assms p by (simp add: kidsOK_plain)
  then have "list_all (\<lambda>k. \<not> stmtLike k) (kids (fst (Visit fp v n x)))"
    using tags_stmtLike [OF soft_tags [OF Visit_kids]] by blast
  then show ?thesis using p by (simp add: kidsOK_plain)
qed

lemma list_all2_setD2:
  "list_all2 P xs ys \<Longrightarrow> y \<in> set ys \<Longrightarrow> \<exists>x \<in> set xs. P x y"
  by (induction rule: list_all2_induct) auto

lemma Walk_tags_kids:
  assumes "walkList (Walk fp v2) ks x = (ks', x')"
  shows "list_all2 (\<lambda>k k'. isAssign k' = isAssign k \<and> isLabeled k' = isLabeled k) ks ks'"
    and "list_all2 (\<lambda>k k'. addrOf k' = addrOf k) ks ks'"
    and "list_all2 (\<lambda>k k'. isIdent k' = isIdent k) ks ks'"
proof -
  note a = walkList_all2 [OF assms]
  show "list_all2 (\<lambda>k k'. isAssign k' = isAssign k \<and> isLabeled k' = isLabeled k) ks ks'"
    by (rule list_all2_mono [OF a]) (use Walk_tag in auto)
  show "list_all2 (\<lambda>k k'. addrOf k' = addrOf k) ks ks'"
    by (rule list_all2_mono [OF a]) (use Walk_tag in auto)
  show "list_all2 (\<lambda>k k'. isIdent k' = isIdent k) ks ks'"
    by (rule list_all2_mono [OF a]) (use Walk_tag in auto)
qed

lemma Walk_grammatical: "grammatical n \<Longrightarrow> grammatical (fst (Walk fp v n x))"
proof (induction fp v n x rule: Walk.induct)
  case (1 fp v n x)
  obtain n' x' where W: "Walk fp v n x = (n', x')" by (cases "Walk fp v n x") auto
  from W obtain n1 v2 x1 ks where u: "Visit fp v n x = (n1, v2, x1)"
    "walkList (Walk fp v2) (kids n1) x1 = (ks, x')" "n' = withKids n1 ks"
    "length ks = length (kids n1)" "kids n' = ks"
    by (rule Walk_unfold)
  have g: "kidsOK n" "\<And>k. k \<in> set (kids n) \<Longrightarrow> grammatical k"
    using "1.prems" grammatical_unfold [of n] by auto
  have k1: "kidsOK n1" using Visit_kidsOK [OF g(1), of fp v x] u(1) by simp
  have g1: "\<And>k1. k1 \<in> set (kids n1) \<Longrightarrow> grammatical k1"
  proof -
    fix k1 assume "k1 \<in> set (kids n1)"
    then obtain k where "k \<in> set (kids n)" "k1 = k \<or> (isIdent k \<and> isIdent k1)"
      using list_all2_setD2 [OF Visit_kids [of n fp v x]] u(1) by fastforce
    then show "grammatical k1" using g(2) grammatical_isIdent by blast
  qed
  have "\<And>k'. k' \<in> set ks \<Longrightarrow> grammatical k'"
  proof -
    fix k' assume "k' \<in> set ks"
    then obtain k1 y where "k1 \<in> set (kids n1)" "k' = fst (Walk fp v2 k1 y)"
      using list_all2_setD2 [OF walkList_all2 [OF u(2)]] by blast
    then show "grammatical k'" using "1.IH" [OF u(1) [symmetric] refl] g1 by simp
  qed
  moreover have "kidsOK n'"
    unfolding u(3) using Walk_tags_kids(1) [OF u(2)] k1 by (rule kidsOK_withKids)
  ultimately have "grammatical n'" using u(5) by (simp add: grammatical_unfold [of n'])
  then show ?case using W by simp
qed

lemma Visit_clist:
  "clist (snd (snd (Visit fp v n x))) = clist x
   \<or> (\<exists>a lhs t rhs. n = AssignStmt a lhs t rhs \<and> \<not> v_init v \<and> v_comm v \<noteq> Some a
        \<and> clist (snd (snd (Visit fp v n x))) = clist x @
             [\<lparr>c_assign = a,
               c_kind = (if countTok ASSIGN (map classify (map Some lhs)) > 0
                         then Some (map classify (map Some lhs)) else None),
               c_list = v_list v, c_ptr = v_ilabel v,
               c_ref = (if v_ilabel v \<noteq> None then v_olabel v else Some a)\<rparr>])"
proof (cases n)
  case (AssignStmt a lhs t rhs)
  then show ?thesis by (simp add: assignFields_eq split: prod.splits)
next
  case (RangeStmt p k vl t e body)
  then show ?thesis by (simp add: rangeFields_eq split: prod.splits)
next
  case (Ident p name)
  then show ?thesis by (simp add: ident_def)
qed simp_all

lemma Visit_addrs_kids: "map addrs (kids (fst (Visit fp v n x))) = map addrs (kids n)"
proof -
  have "list_all2 (\<lambda>k k1. addrs k1 = addrs k) (kids n) (kids (fst (Visit fp v n x)))"
    by (rule list_all2_mono [OF Visit_kids]) (use addrs_isIdent in auto)
  then show ?thesis by (rule list_all2_map_eq)
qed

lemma walkList_clist_addrs:
  assumes "\<And>k y. k \<in> set ks \<Longrightarrow> \<exists>cs. clist (snd (f k y)) = clist y @ cs
             \<and> set (map c_assign cs) \<subseteq> set (g k) \<and> distinct (map c_assign cs)"
    and "distinct (concat (map g ks))"
  shows "\<exists>cs. clist (snd (walkList f ks x)) = clist x @ cs
           \<and> set (map c_assign cs) \<subseteq> set (concat (map g ks)) \<and> distinct (map c_assign cs)"
  using assms
proof (induction ks arbitrary: x)
  case Nil
  then show ?case by simp
next
  case (Cons k ks)
  obtain k' x1 where f: "f k x = (k', x1)" by (cases "f k x") auto
  obtain cs1 where c1: "clist x1 = clist x @ cs1" "set (map c_assign cs1) \<subseteq> set (g k)"
      "distinct (map c_assign cs1)"
    using Cons.prems(1) [of k x] f by auto
  have "\<exists>cs. clist (snd (walkList f ks x1)) = clist x1 @ cs
           \<and> set (map c_assign cs) \<subseteq> set (concat (map g ks)) \<and> distinct (map c_assign cs)"
    using Cons.IH [of x1] Cons.prems by simp
  then obtain cs2 where c2: "clist (snd (walkList f ks x1)) = clist x1 @ cs2"
      "set (map c_assign cs2) \<subseteq> set (concat (map g ks))" "distinct (map c_assign cs2)"
    by blast
  have dj: "set (g k) \<inter> set (concat (map g ks)) = {}" using Cons.prems(2) by simp
  have "clist (snd (walkList f (k # ks) x)) = clist x @ (cs1 @ cs2)"
    using f c1(1) c2(1) by (simp add: case_prod_unfold)
  moreover have "set (map c_assign (cs1 @ cs2)) \<subseteq> set (concat (map g (k # ks)))"
    using c1(2) c2(2) by auto
  moreover have "distinct (map c_assign (cs1 @ cs2))"
    using c1(2,3) c2(2,3) dj by auto
  ultimately show ?case by blast
qed

lemma Walk_clist_addrs:
  "distinct (addrs n) \<Longrightarrow>
   \<exists>cs. clist (snd (Walk fp v n x)) = clist x @ cs
      \<and> set (map c_assign cs) \<subseteq> set (addrs n) \<and> distinct (map c_assign cs)"
proof (induction fp v n x rule: Walk.induct)
  case (1 fp v n x)
  obtain n' x' where W: "Walk fp v n x = (n', x')" by (cases "Walk fp v n x") auto
  from W obtain n1 v2 x1 ks where u: "Visit fp v n x = (n1, v2, x1)"
    "walkList (Walk fp v2) (kids n1) x1 = (ks, x')" "n' = withKids n1 ks"
    "length ks = length (kids n1)" "kids n' = ks"
    by (rule Walk_unfold)
  have ak: "map addrs (kids n1) = map addrs (kids n)"
    using Visit_addrs_kids [of fp v n x] u(1) by simp
  have dk: "distinct (concat (map addrs (kids n1)))"
    unfolding ak using distinct_addrs_kids(1) [OF "1.prems"] .
  have "\<And>k y. k \<in> set (kids n1) \<Longrightarrow> \<exists>cs. clist (snd (Walk fp v2 k y)) = clist y @ cs
             \<and> set (map c_assign cs) \<subseteq> set (addrs k) \<and> distinct (map c_assign cs)"
    using "1.IH" [OF u(1) [symmetric] refl] distinct_concat_mem [OF dk] by simp
  from walkList_clist_addrs [of "kids n1" "Walk fp v2" addrs, OF this dk, of x1]
  obtain cs2 where c2: "clist x' = clist x1 @ cs2"
      "set (map c_assign cs2) \<subseteq> set (concat (map addrs (kids n)))" "distinct (map c_assign cs2)"
    using u(2) ak by auto
  from Visit_clist [of fp v n x] show ?case
  proof
    assume "clist (snd (snd (Visit fp v n x))) = clist x"
    then have "clist x' = clist x @ cs2" using c2(1) u(1) by simp
    moreover have "set (map c_assign cs2) \<subseteq> set (addrs n)"
      using c2(2) by (subst addrs_Cons_kids) auto
    ultimately show ?thesis using c2(3) W by auto
  next
    assume "\<exists>a lhs t rhs. n = AssignStmt a lhs t rhs \<and> \<not> v_init v \<and> v_comm v \<noteq> Some a
        \<and> clist (snd (snd (Visit fp v n x))) = clist x @
             [\<lparr>c_assign = a,
               c_kind = (if countTok ASSIGN (map classify (map Some lhs)) > 0
                         then Some (map classify (map Some lhs)) else None),
               c_list = v_list v, c_ptr = v_ilabel v,
               c_ref = (if v_ilabel v \<noteq> None then v_olabel v else Some a)\<rparr>]"
    then obtain a lhs t rhs c where n: "n = AssignStmt a lhs t rhs"
        and c: "clist x1 = clist x @ [c]" "c_assign c = a"
      using u(1) by auto
    have an: "a \<notin> set (concat (map addrs (kids n)))"
      using distinct_addrs_kids(2) [OF "1.prems"] n by simp
    have "clist x' = clist x @ (c # cs2)" using c2(1) c(1) by simp
    moreover have "set (map c_assign (c # cs2)) \<subseteq> set (addrs n)"
      using c2(2) c(2) n by (subst addrs_Cons_kids) (auto simp: opt_def)
    moreover have "distinct (map c_assign (c # cs2))"
      using c2(2,3) c(2) an by auto
    ultimately show ?thesis using W by (metis snd_conv)
  qed
qed


subsection \<open>The changes that the walk records are in place\<close>

text \<open>
  \<open>atTop v c n\<close>: the change \<open>c\<close> was recorded for the statement \<open>n\<close> itself, walked
  with the visitor \<open>v\<close>, and is in place as soon as the list of \<open>v\<close> holds the
  statement (or its outermost label).
\<close>

definition atTop :: "visitor \<Rightarrow> change \<Rightarrow> node \<Rightarrow> bool" where
  "atTop v c n \<longleftrightarrow>
     leadsTo c n \<and> c_list c = v_list v
     \<and> c_ref c = (if v_ilabel v \<noteq> None then v_olabel v else addrOf n)
     \<and> (isAssign n \<longrightarrow> c_ptr c = v_ilabel v \<and> \<not> v_init v \<and> v_comm v \<noteq> addrOf n)"

definition ctxOK :: "visitor \<Rightarrow> bool" where
  "ctxOK v \<longleftrightarrow> (v_ilabel v = None \<longleftrightarrow> v_olabel v = None)"

lemma Visit_v2:
  "fst (snd (Visit fp v n x)) =
     (if header n then visitor0\<lparr>v_init := True\<rparr>
      else if plain n then visitor0
      else (case n of
              BlockStmt a l \<Rightarrow> visitor0\<lparr>v_list := Some a\<rparr>
            | CaseClause a es body \<Rightarrow> visitor0\<lparr>v_list := Some a\<rparr>
            | CommClause a c body \<Rightarrow>
                visitor0\<lparr>v_list := Some a, v_comm := (case c of None \<Rightarrow> None | Some s \<Rightarrow> addrOf s)\<rparr>
            | LabeledStmt a lab s \<Rightarrow>
                visitor0\<lparr>v_list := v_list v, v_ilabel := Some a,
                         v_olabel := (if v_olabel v \<noteq> None then v_olabel v else Some a)\<rparr>
            | _ \<Rightarrow> visitor0))"
  by (cases n) (simp_all split: prod.splits)

lemma Visit_ctxOK: "ctxOK (fst (snd (Visit fp v n x)))"
  by (cases n) (simp_all add: ctxOK_def visitor0_def split: prod.splits)

lemma leadsTo_stmtLike: "leadsTo c k \<Longrightarrow> stmtLike k"
  by (cases k) (simp_all add: stmtLike_def)

lemma atTop_plain:
  assumes "plain n" "kidsOK n" "k \<in> set (kids n)"
  shows "\<not> leadsTo c k"
  using assms leadsTo_stmtLike [of c k] by (auto simp: kidsOK_plain list_all_iff)

lemma atTop_header:
  assumes "header n" "kidsOK n" "k \<in> set (kids n)"
  shows "\<not> atTop (visitor0\<lparr>v_init := True\<rparr>) c k"
proof
  assume t: "atTop (visitor0\<lparr>v_init := True\<rparr>) c k"
  then have "leadsTo c k" by (simp add: atTop_def)
  then have "stmtLike k" by (rule leadsTo_stmtLike)
  moreover have "\<not> isLabeled k" using assms by (auto simp: kidsOK_header list_all_iff)
  ultimately have "isAssign k" by (simp add: stmtLike_def)
  then show False using t by (simp add: atTop_def)
qed

lemma atTop_list:
  assumes "stmtsOf n = Some stmts" "addrOf n = Some a" "k \<in> set stmts" "atTop v2 c k"
    "v_list v2 = Some a" "v_ilabel v2 = None"
  shows "pending c n"
proof -
  have "anchored c k" using assms(4,6) by (simp add: atTop_def anchored_def)
  then have "hosts c n" using assms(1,2,3,4,5) by (auto simp: hosts_def atTop_def)
  then show ?thesis using nodes_self by (auto simp: pending_def)
qed

lemma compat_walked:
  assumes "list_all2 (\<lambda>e e'. isIdent e' = isIdent e) lhs lhs'"
  shows "compat (if 0 < countTok ASSIGN (map classify (map Some lhs))
                 then Some (map classify (map Some lhs)) else None) lhs'"
proof (cases "0 < countTok ASSIGN (map classify (map Some lhs))")
  case True
  have "list_all2 (\<lambda>k e'. k = ASSIGN \<or> isIdent e') (map classify (map Some lhs)) lhs'"
    unfolding list_all2_map1
    by (rule list_all2_mono [OF assms]) (use classify_not_ASSIGN_isIdent in auto)
  then show ?thesis using True by (simp add: compat_def)
next
  case False
  then have "ASSIGN \<notin> set (map classify (map Some lhs))" by (simp add: countTok_pos del: map_map)
  then have "\<And>e. e \<in> set lhs \<Longrightarrow> classify (Some e) \<noteq> ASSIGN"
    by force
  then have l: "list_all isIdent lhs" using classify_not_ASSIGN_isIdent by (auto simp: list_all_iff)
  have "list_all isIdent lhs'"
    using assms l by (induction rule: list_all2_induct) auto
  then show ?thesis using False by (simp add: compat_def)
qed

lemma walkList_clist:
  assumes "\<And>k y k' y'. k \<in> set ks \<Longrightarrow> f k y = (k', y') \<Longrightarrow> G k'
             \<Longrightarrow> \<forall>c \<in> set (clist y'). c \<in> set (clist y) \<or> R k' c"
    and "walkList f ks x = (ks', x')" and "\<forall>k' \<in> set ks'. G k'"
  shows "\<forall>c \<in> set (clist x'). c \<in> set (clist x) \<or> (\<exists>k' \<in> set ks'. R k' c)"
  using assms
proof (induction ks arbitrary: x ks' x')
  case Nil
  then show ?case by simp
next
  case (Cons k ks)
  obtain k1 x1 where f: "f k x = (k1, x1)" by (cases "f k x") auto
  obtain ks1 x2 where w: "walkList f ks x1 = (ks1, x2)" by (cases "walkList f ks x1") auto
  have r: "ks' = k1 # ks1" "x' = x2" using Cons.prems(2) f w by simp_all
  have a: "\<forall>c \<in> set (clist x1). c \<in> set (clist x) \<or> R k1 c"
    using Cons.prems(1) [of k x k1 x1] f Cons.prems(3) r by simp
  have p1: "\<And>k0 y k' y'. k0 \<in> set ks \<Longrightarrow> f k0 y = (k', y') \<Longrightarrow> G k'
             \<Longrightarrow> \<forall>c \<in> set (clist y'). c \<in> set (clist y) \<or> R k' c"
  proof -
    fix k0 y k' y' assume "k0 \<in> set ks" "f k0 y = (k', y')" "G k'"
    then show "\<forall>c \<in> set (clist y'). c \<in> set (clist y) \<or> R k' c"
      using Cons.prems(1) [of k0 y k' y'] by simp
  qed
  have p3: "\<forall>k' \<in> set ks1. G k'" using Cons.prems(3) r by simp
  have b: "\<forall>c \<in> set (clist x2). c \<in> set (clist x1) \<or> (\<exists>k' \<in> set ks1. R k' c)"
    using p1 w p3 by (rule Cons.IH)
  show ?case using a b r by auto
qed

lemma set_take_drop: "k \<in> set ks \<Longrightarrow> k \<in> set (take m ks) \<or> k \<in> set (drop m ks)"
  by (metis Un_iff append_take_drop_id set_append)

lemma atTop_case:
  assumes g: "kidsOK (CaseClause a es body)" and k: "k \<in> set (es @ body)"
    and t: "atTop (visitor0\<lparr>v_list := Some a\<rparr>) c k"
  shows "pending c (CaseClause a es body)"
proof -
  have "leadsTo c k" using t by (simp add: atTop_def)
  then have "stmtLike k" by (rule leadsTo_stmtLike)
  then have "k \<in> set body" using g k by (auto simp: list_all_iff)
  then show ?thesis
    using atTop_list [of "CaseClause a es body" body a k _ c, OF _ _ _ t] by (simp add: visitor0_def)
qed

lemma atTop_comm:
  assumes g: "kidsOK (CommClause a c0 body)" and k: "k \<in> set (opt c0 @ body)"
    and t: "atTop (visitor0\<lparr>v_list := Some a,
                 v_comm := (case c0 of None \<Rightarrow> None | Some s \<Rightarrow> addrOf s)\<rparr>) c k"
  shows "pending c (CommClause a c0 body)"
proof -
  have l: "leadsTo c k" using t by (simp add: atTop_def)
  have "k \<in> set body"
  proof (rule ccontr)
    assume "k \<notin> set body"
    then have c0: "c0 = Some k" using k by (cases c0) (auto simp: opt_def)
    then have "\<not> isLabeled k" using g by (simp add: opt_def)
    then have "isAssign k" using leadsTo_stmtLike [OF l] by (simp add: stmtLike_def)
    then show False using t c0 by (simp add: atTop_def)
  qed
  then show ?thesis
    using atTop_list [of "CommClause a c0 body" body a k _ c, OF _ _ _ t] by (simp add: visitor0_def)
qed

lemma atTop_label:
  assumes g: "kidsOK (LabeledStmt l lab s)" and k: "k \<in> set [lab, s]" and x: "ctxOK v"
    and t: "atTop (visitor0\<lparr>v_list := v_list v, v_ilabel := Some l,
                 v_olabel := (if v_olabel v \<noteq> None then v_olabel v else Some l)\<rparr>) c k"
  shows "atTop v c (LabeledStmt l lab s)"
proof -
  have l: "leadsTo c k" using t by (simp add: atTop_def)
  have "k \<noteq> lab" using g leadsTo_stmtLike [OF l] by auto
  then have "k = s" using k by simp
  then show ?thesis using t x by (auto simp: atTop_def ctxOK_def visitor0_def)
qed

lemma Visit_Assign:
  assumes "n = AssignStmt a lhs t rhs"
  shows "\<exists>lhs1 t1. fst (Visit fp v n x) = AssignStmt a lhs1 t1 rhs
           \<and> list_all2 (\<lambda>e e'. isIdent e' = isIdent e) lhs lhs1"
proof -
  from Visit_node [of fp v n x] consider "fst (Visit fp v n x) = n"
    | t' where "fst (Visit fp v n x) = AssignStmt a (map unmarkNode lhs) t' rhs"
    using assms by auto
  then show ?thesis
  proof cases
    case 1
    then show ?thesis using assms by (simp add: list_all2_same)
  next
    case 2
    then show ?thesis by (simp add: list_all2_map2 list_all2_same)
  qed
qed


lemma Walk_pending:
  assumes "Walk fp v n x = (n', x')" "grammatical n'" "ctxOK v"
  shows "\<forall>c \<in> set (clist x'). c \<in> set (clist x) \<or> pending c n' \<or> atTop v c n'"
  using assms
proof (induction fp v n x arbitrary: n' x' rule: Walk.induct)
  case (1 fp v n x)
  from "1.prems"(1) obtain n1 v2 x1 ks where u: "Visit fp v n x = (n1, v2, x1)"
    "walkList (Walk fp v2) (kids n1) x1 = (ks, x')" "n' = withKids n1 ks"
    "length ks = length (kids n1)" "kids n' = ks"
    by (rule Walk_unfold)
  have g: "kidsOK n'" "\<forall>k' \<in> set ks. grammatical k'"
    using "1.prems"(2) u(5) grammatical_unfold [of n'] by auto
  have v2: "v2 = fst (snd (Visit fp v n x))" and n1: "n1 = fst (Visit fp v n x)"
    and x1: "x1 = snd (snd (Visit fp v n x))"
    using u(1) by simp_all
  have c2: "ctxOK v2" unfolding v2 by (rule Visit_ctxOK)
  have W: "\<forall>c \<in> set (clist x'). c \<in> set (clist x1) \<or> (\<exists>k' \<in> set ks. pending c k' \<or> atTop v2 c k')"
  proof (rule walkList_clist [where G = grammatical, OF _ u(2) g(2)])
    fix k y k' y' assume "k \<in> set (kids n1)" "Walk fp v2 k y = (k', y')" "grammatical k'"
    then show "\<forall>c\<in>set (clist y'). c \<in> set (clist y) \<or> pending c k' \<or> atTop v2 c k'"
      using "1.IH" [OF u(1) [symmetric] refl _ _ _ c2] by blast
  qed
  have kn: "\<And>k'. k' \<in> set ks \<Longrightarrow> k' \<in> set (kids n')" using u(5) by simp
  have down: "\<And>c k'. k' \<in> set ks \<Longrightarrow> pending c k' \<Longrightarrow> pending c n'"
    using kn nodes_kid by (fastforce simp: pending_def)
  have up: "\<And>c k'. k' \<in> set ks \<Longrightarrow> atTop v2 c k' \<Longrightarrow> pending c n' \<or> atTop v c n'"
  proof -
    fix c k' assume k: "k' \<in> set ks" and t: "atTop v2 c k'"
    have lt: "leadsTo c k'" using t by (simp add: atTop_def)
    show "pending c n' \<or> atTop v c n'"
    proof (cases "header n")
      case True
      then have "v2 = visitor0\<lparr>v_init := True\<rparr>" unfolding v2 by (simp add: Visit_v2)
      moreover have "n1 = n" using plain_Visit [of fp v n x] n1 True by (cases n) auto
      then have "header n'" using True u(3) by simp
      ultimately show ?thesis using atTop_header [OF _ g(1) kn [OF k]] t by blast
    next
      case False
      note nh = False
      show ?thesis
      proof (cases "plain n")
        case True
        have "plain n1" using plain_Visit [of fp v n x] n1 True by (cases "n1 = n") auto
        then have "plain n'" unfolding u(3) by simp
        then show ?thesis using atTop_plain [OF _ g(1) kn [OF k]] lt by blast
      next
        case False
        then have e: "n1 = n" using plain_Visit [of fp v n x] n1 by auto
        have vv: "v2 = (case n of
              BlockStmt a l \<Rightarrow> visitor0\<lparr>v_list := Some a\<rparr>
            | CaseClause a es body \<Rightarrow> visitor0\<lparr>v_list := Some a\<rparr>
            | CommClause a c body \<Rightarrow>
                visitor0\<lparr>v_list := Some a, v_comm := (case c of None \<Rightarrow> None | Some s \<Rightarrow> addrOf s)\<rparr>
            | LabeledStmt a lab s \<Rightarrow>
                visitor0\<lparr>v_list := v_list v, v_ilabel := Some a,
                         v_olabel := (if v_olabel v \<noteq> None then v_olabel v else Some a)\<rparr>
            | _ \<Rightarrow> visitor0)"
          unfolding v2 Visit_v2 using nh False by simp
        show ?thesis
        proof (cases n)
          case (BlockStmt a l)
          have "n' = BlockStmt a ks" using u(3) e BlockStmt by simp
          then show ?thesis
            using atTop_list [of n' ks a k' v2 c] k t vv BlockStmt by (simp add: visitor0_def)
        next
          case (CaseClause a es body)
          then obtain es' body' where n': "n' = CaseClause a es' body'" using u(3) e by simp
          have "k' \<in> set (es' @ body')" using kn [OF k] n' by simp
          then show ?thesis
            using atTop_case [of a es' body' k' c] g(1) t vv CaseClause n' by simp
        next
          case (CommClause a c0 body)
          have a2: "list_all2 (\<lambda>k k'. addrOf k' = addrOf k) (opt c0 @ body) ks"
            using Walk_tags_kids(2) [OF u(2)] e CommClause by simp
          have "\<exists>c' body'. n' = CommClause a c' body'
                  \<and> (case c' of None \<Rightarrow> None | Some s \<Rightarrow> addrOf s)
                      = (case c0 of None \<Rightarrow> None | Some s \<Rightarrow> addrOf s)"
          proof (cases c0)
            case None
            then show ?thesis using u(3) e CommClause by (simp add: fill_def)
          next
            case (Some s0)
            then obtain k0 r where ks: "ks = k0 # r"
              using u(4) e CommClause by (cases ks) (auto simp: opt_def)
            then show ?thesis using u(3) e CommClause Some a2 by (simp add: fill_def opt_def)
          qed
          then obtain c' body' where n': "n' = CommClause a c' body'"
            "(case c' of None \<Rightarrow> None | Some s \<Rightarrow> addrOf s)
                      = (case c0 of None \<Rightarrow> None | Some s \<Rightarrow> addrOf s)"
            by blast
          have "k' \<in> set (opt c' @ body')" using kn [OF k] n' by simp
          then show ?thesis
            using atTop_comm [of a c' body' k' c] g(1) t vv CommClause n' by simp
        next
          case (LabeledStmt l lab s)
          then obtain lab' s' where ks: "ks = [lab', s']"
            using u(4) e by (cases ks; cases "tl ks") auto
          then have n': "n' = LabeledStmt l lab' s'" using u(3) e LabeledStmt by (simp add: one_def)
          have "k' \<in> set [lab', s']" using k ks by simp
          then show ?thesis
            using atTop_label [of l lab' s' k' v c] g(1) t vv LabeledStmt n' "1.prems"(3) by simp
        qed (use nh False in simp_all)
      qed
    qed
  qed
  have new: "\<And>c. c \<in> set (clist x1) \<Longrightarrow> c \<in> set (clist x) \<or> atTop v c n'"
  proof -
    fix c assume c: "c \<in> set (clist x1)"
    from Visit_clist [of fp v n x] show "c \<in> set (clist x) \<or> atTop v c n'"
    proof
      assume "clist (snd (snd (Visit fp v n x))) = clist x"
      then show ?thesis using c x1 by simp
    next
      assume "\<exists>a lhs t rhs. n = AssignStmt a lhs t rhs \<and> \<not> v_init v \<and> v_comm v \<noteq> Some a
        \<and> clist (snd (snd (Visit fp v n x))) = clist x @
             [\<lparr>c_assign = a,
               c_kind = (if countTok ASSIGN (map classify (map Some lhs)) > 0
                         then Some (map classify (map Some lhs)) else None),
               c_list = v_list v, c_ptr = v_ilabel v,
               c_ref = (if v_ilabel v \<noteq> None then v_olabel v else Some a)\<rparr>]"
      then obtain a lhs t rhs where n: "n = AssignStmt a lhs t rhs"
          and i: "\<not> v_init v" "v_comm v \<noteq> Some a"
          and cl: "clist x1 = clist x @
             [\<lparr>c_assign = a,
               c_kind = (if countTok ASSIGN (map classify (map Some lhs)) > 0
                         then Some (map classify (map Some lhs)) else None),
               c_list = v_list v, c_ptr = v_ilabel v,
               c_ref = (if v_ilabel v \<noteq> None then v_olabel v else Some a)\<rparr>]"
        using x1 by auto
      let ?c0 = "\<lparr>c_assign = a,
               c_kind = (if countTok ASSIGN (map classify (map Some lhs)) > 0
                         then Some (map classify (map Some lhs)) else None),
               c_list = v_list v, c_ptr = v_ilabel v,
               c_ref = (if v_ilabel v \<noteq> None then v_olabel v else Some a)\<rparr>"
      from Visit_Assign [OF n, of fp v x] obtain lhs1 t1 where
        l1: "n1 = AssignStmt a lhs1 t1 rhs" "list_all2 (\<lambda>e e'. isIdent e' = isIdent e) lhs lhs1"
        using n1 by auto
      have n': "n' = AssignStmt a (take (length lhs1) ks) t1 (drop (length lhs1) ks)"
        using u(3) l1(1) by simp
      have "list_all2 (\<lambda>k k'. isIdent k' = isIdent k) (take (length lhs1) (lhs1 @ rhs))
              (take (length lhs1) ks)"
        using Walk_tags_kids(3) [OF u(2)] l1(1) by (simp add: list_all2_takeI del: take_append)
      then have "list_all2 (\<lambda>k k'. isIdent k' = isIdent k) lhs1 (take (length lhs1) ks)" by simp
      then have "list_all2 (\<lambda>e e'. isIdent e' = isIdent e) lhs (take (length lhs1) ks)"
        using l1(2) list_all2_trans [of "\<lambda>e e'. isIdent e' = isIdent e"
             "\<lambda>e e'. isIdent e' = isIdent e" "\<lambda>e e'. isIdent e' = isIdent e"] by fastforce
      then have "compat (c_kind ?c0) (take (length lhs1) ks)"
        using compat_walked by simp
      then have "atTop v ?c0 n'" using n' i by (simp add: atTop_def)
      then show ?thesis using c cl by auto
    qed
  qed
  show ?case using W new down up by blast
qed


subsection \<open>xlateFile returns\<close>

lemma fold_max_above: "a \<in> set xs \<Longrightarrow> a \<le> fold max xs (m::nat)"
proof (induction xs arbitrary: m)
  case Nil
  then show ?case by simp
next
  case (Cons x xs)
  have mono: "\<And>m. m \<le> fold max xs m"
  proof -
    fix m :: nat show "m \<le> fold max xs m" by (induction xs arbitrary: m) (auto intro: le_trans [rotated] max.cobounded2)
  qed
  show ?case
  proof (cases "a = x")
    case True
    have "x \<le> max x m" by simp
    also have "\<dots> \<le> fold max xs (max x m)" by (rule mono)
    finally show ?thesis using True by simp
  next
    case False
    then show ?thesis using Cons by simp
  qed
qed

lemma newAddr_above: "a \<in> set (addrs root) \<Longrightarrow> a < newAddr root"
  using fold_max_above [of a "addrs root" 0] by (simp add: newAddr_def)

lemma pending_in_place:
  assumes p: "pending c root" and d: "distinct (addrs root)"
  shows "\<exists>lid N stmts i lhs t rhs.
     c_list c = Some lid \<and> getAt lid root = Some N \<and> stmtsOf N = Some stmts
     \<and> indexStmt stmts (c_ref c) = Some i \<and> addrOf (stmts ! i) = c_ref c
     \<and> leadsTo c (stmts ! i)
     \<and> derefAssign (c_assign c) root = Some (lhs, t, rhs) \<and> compat (c_kind c) lhs"
proof -
  obtain N lid stmts s lhs t rhs where
    f: "c_list c = Some lid" "getAt lid root = Some N" "stmtsOf N = Some stmts"
    "s \<in> set stmts" "anchored c s" "N \<in> set (nodes root)" "s \<in> set (nodes root)"
    "getAt (c_assign c) root = Some (AssignStmt (c_assign c) lhs t rhs)"
    "compat (c_kind c) lhs"
    "(c_ptr c = None \<and> s = AssignStmt (c_assign c) lhs t rhs)
      \<or> (\<exists>l lab. c_ptr c = Some l
            \<and> getAt l root = Some (LabeledStmt l lab (AssignStmt (c_assign c) lhs t rhs)))"
    "AssignStmt (c_assign c) lhs t rhs \<in> set (nodes s)"
    by (rule footprint [OF p d]) (rule that)
  have da: "derefAssign (c_assign c) root = Some (lhs, t, rhs)"
    using f(8) by (simp add: derefAssign_def)
  obtain r where r: "addrOf s = Some r" using leadsTo_addr [of c s] f(5) by (auto simp: anchored_def)
  have cr: "c_ref c = Some r" using f(5) r by (simp add: anchored_def)
  obtain i where i0: "indexStmt stmts (c_ref c) = Some i"
    using indexStmt_mem [OF f(4) r] cr by auto
  have il: "i < length stmts" and ia: "addrOf (stmts ! i) = Some r"
    using indexStmt_Some [OF i0] cr by simp_all
  have "stmts ! i \<in> set (kids N)" using il stmts_kids [OF f(3)] by auto
  then have "stmts ! i \<in> set (nodes root)"
    using nodes_kid nodes_self nodes_trans [OF _ f(6)] by blast
  then have "getAt r root = Some (stmts ! i)" using ia d by (rule getAt_unique)
  moreover have "getAt r root = Some s" using f(7) r d by (rule getAt_unique)
  ultimately have si: "stmts ! i = s" by simp
  have ld: "leadsTo c (stmts ! i)" using f(5) si by (simp add: anchored_def)
  have ic: "addrOf (stmts ! i) = c_ref c" using ia cr by simp
  show ?thesis using f(1,2,3,9) i0 ic ld da by blast
qed

lemma step_change:
  assumes "Inv root (c # cs) nx"
  shows "\<exists>root' tc' nx'. applyChange c tc nx root = Inr (root', tc', nx') \<and> Inv root' cs nx'"
proof (cases "c_kind c")
  case None
  then show ?thesis using step_nonMixed [OF assms None] by (auto simp: applyChange_def)
next
  case (Some ks)
  then show ?thesis using step_mixed [OF assms Some, of tc] by (auto simp: applyChange_def)
qed

lemma applyAll_Inv:
  assumes "Inv root (pre @ cs) nx" "applyAll pre tc nx root = Inr (root1, tc1, nx1)"
  shows "Inv root1 cs nx1"
  using assms
proof (induction pre arbitrary: root tc nx)
  case Nil
  then show ?case by simp
next
  case (Cons c pre)
  from step_change [of root c "pre @ cs" nx tc] Cons.prems(1)
  obtain root' tc' nx' where r: "applyChange c tc nx root = Inr (root', tc', nx')"
      "Inv root' (pre @ cs) nx'"
    by auto
  have "applyAll pre tc' nx' root' = Inr (root1, tc1, nx1)" using Cons.prems(2) r(1) by simp
  then show ?case using Cons.IH [OF r(2)] by simp
qed

lemma Walk_Inv:
  assumes d: "distinct (addrs root)" and g: "grammatical root" and s: "\<not> stmtLike root"
    and W: "Walk fp visitor0 root xlate0 = (T, x)"
  shows "Inv T (clist x) (newAddr T)"
proof -
  have a: "addrs T = addrs root" using Walk_addrs [of fp visitor0 root xlate0] W by simp
  have gT: "grammatical T" using Walk_grammatical [OF g, of fp visitor0 xlate0] W by simp
  have sT: "\<not> stmtLike T"
    using Walk_tag [of fp visitor0 root xlate0] W s by (simp add: stmtLike_def)
  obtain cs where cs: "clist x = clist xlate0 @ cs" "distinct (map c_assign cs)"
    using Walk_clist_addrs [OF d, of fp visitor0 xlate0] W by auto
  have dc: "distinct (map c_assign (clist x))" using cs by (simp add: xlate0_def)
  have "ctxOK visitor0" by (simp add: ctxOK_def visitor0_def)
  from Walk_pending [OF W gT this]
  have "\<forall>c \<in> set (clist x). pending c T \<or> atTop visitor0 c T" by (simp add: xlate0_def)
  moreover have "\<And>c. \<not> atTop visitor0 c T" using sT leadsTo_stmtLike by (auto simp: atTop_def)
  ultimately have "\<forall>c \<in> set (clist x). pending c T" by blast
  then show ?thesis using d a dc newAddr_above by (simp add: Inv_def)
qed

lemma xlateFile_total:
  assumes "distinct (addrs root)" "grammatical root" "\<not> stmtLike root"
  shows "\<exists>r. xlateFile fp root = Inr r"
proof -
  obtain T x where W: "Walk fp visitor0 root xlate0 = (T, x)"
    by (cases "Walk fp visitor0 root xlate0") auto
  from applyAll_total [OF Walk_Inv [OF assms W], of 0]
  obtain r where "applyAll (clist x) 0 (newAddr T) T = Inr r" by blast
  then show ?thesis using W by (cases r) (simp add: xlateFile_def)
qed

lemma Visit_clist_origin:
  "\<forall>c \<in> set (clist (snd (snd (Visit fp v n x)))). c \<in> set (clist x)
     \<or> (\<exists>lhs t rhs. n = AssignStmt (c_assign c) lhs t rhs
          \<and> c_kind c = (if 0 < countTok ASSIGN (map classify (map Some lhs))
                         then Some (map classify (map Some lhs)) else None)
          \<and> 0 < countTok VAR (map classify (map Some lhs)))"
proof (cases n)
  case (AssignStmt a lhs t rhs)
  have "countTok VAR (map classify (map Some lhs)) \<noteq> 0
          \<Longrightarrow> 0 < countTok VAR (map classify (map Some lhs))"
    by (simp add: countTok_zero countTok_pos del: map_map)
  then show ?thesis
    using AssignStmt by (auto simp: assignFields_eq simp del: map_map split: prod.splits)
next
  case (RangeStmt p k vl t e body)
  then show ?thesis by (simp add: rangeFields_eq split: prod.splits)
next
  case (Ident p name)
  then show ?thesis by (simp add: ident_def)
qed simp_all

lemma walkList_clist_src:
  assumes "\<And>k y. k \<in> set ks \<Longrightarrow> \<forall>c \<in> set (clist (snd (f k y))). c \<in> set (clist y) \<or> R k c"
  shows "\<forall>c \<in> set (clist (snd (walkList f ks x))). c \<in> set (clist x) \<or> (\<exists>k \<in> set ks. R k c)"
  using assms
proof (induction ks arbitrary: x)
  case Nil
  then show ?case by simp
next
  case (Cons k ks)
  obtain k1 x1 where f: "f k x = (k1, x1)" by (cases "f k x") auto
  have a: "\<forall>c \<in> set (clist x1). c \<in> set (clist x) \<or> R k c"
    using Cons.prems [of k x] f by simp
  have p: "\<And>k0 y. k0 \<in> set ks \<Longrightarrow> \<forall>c \<in> set (clist (snd (f k0 y))). c \<in> set (clist y) \<or> R k0 c"
  proof -
    fix k0 y assume "k0 \<in> set ks"
    then show "\<forall>c \<in> set (clist (snd (f k0 y))). c \<in> set (clist y) \<or> R k0 c"
      using Cons.prems [of k0 y] by simp
  qed
  have b: "\<forall>c \<in> set (clist (snd (walkList f ks x1))). c \<in> set (clist x1) \<or> (\<exists>k \<in> set ks. R k c)"
    using p by (rule Cons.IH)
  have "snd (walkList f (k # ks) x) = snd (walkList f ks x1)"
    using f by (simp add: case_prod_unfold)
  then show ?case using a b by auto
qed

lemma nodes_isIdent: "isIdent k \<Longrightarrow> M \<in> set (nodes k) \<Longrightarrow> M = k"
  by (cases k) (auto simp: nodes.simps [of "Ident p name" for p name])

lemma Walk_clist_origin:
  "\<forall>c \<in> set (clist (snd (Walk fp v n x))). c \<in> set (clist x)
     \<or> (\<exists>lhs t rhs. AssignStmt (c_assign c) lhs t rhs \<in> set (nodes n)
          \<and> c_kind c = (if 0 < countTok ASSIGN (map classify (map Some lhs))
                         then Some (map classify (map Some lhs)) else None)
          \<and> 0 < countTok VAR (map classify (map Some lhs)))"
proof (induction fp v n x rule: Walk.induct)
  case (1 fp v n x)
  define R where "R = (\<lambda>k (c::change). \<exists>lhs t rhs. AssignStmt (c_assign c) lhs t rhs \<in> set (nodes k)
          \<and> c_kind c = (if 0 < countTok ASSIGN (map classify (map Some lhs))
                         then Some (map classify (map Some lhs)) else None)
          \<and> 0 < countTok VAR (map classify (map Some lhs)))"
  obtain n' x' where W: "Walk fp v n x = (n', x')" by (cases "Walk fp v n x") auto
  from W obtain n1 v2 x1 ks where u: "Visit fp v n x = (n1, v2, x1)"
    "walkList (Walk fp v2) (kids n1) x1 = (ks, x')" "n' = withKids n1 ks"
    "length ks = length (kids n1)" "kids n' = ks"
    by (rule Walk_unfold)
  have a: "\<forall>c \<in> set (clist x1). c \<in> set (clist x) \<or> R n c"
    unfolding R_def using Visit_clist_origin [of fp v n x] u(1) nodes_self [of n] by fastforce
  have IH: "\<And>k y. k \<in> set (kids n1) \<Longrightarrow>
              \<forall>c \<in> set (clist (snd (Walk fp v2 k y))). c \<in> set (clist y) \<or> R k c"
    unfolding R_def using "1.IH" [OF u(1) [symmetric] refl] by blast
  have "\<forall>c \<in> set (clist (snd (walkList (Walk fp v2) (kids n1) x1))).
           c \<in> set (clist x1) \<or> (\<exists>k \<in> set (kids n1). R k c)"
    using IH by (rule walkList_clist_src)
  then have b: "\<forall>c \<in> set (clist x'). c \<in> set (clist x1) \<or> (\<exists>k \<in> set (kids n1). R k c)"
    using u(2) by simp
  have up: "\<And>k1 c. k1 \<in> set (kids n1) \<Longrightarrow> R k1 c \<Longrightarrow> R n c"
  proof -
    fix k1 c assume k1: "k1 \<in> set (kids n1)" and r: "R k1 c"
    obtain k where k: "k \<in> set (kids n)" "k1 = k \<or> (isIdent k \<and> isIdent k1)"
      using list_all2_setD2 [OF Visit_kids [of n fp v x]] u(1) k1 by fastforce
    from r obtain lhs t rhs where A: "AssignStmt (c_assign c) lhs t rhs \<in> set (nodes k1)"
        "c_kind c = (if 0 < countTok ASSIGN (map classify (map Some lhs))
                         then Some (map classify (map Some lhs)) else None)"
        "0 < countTok VAR (map classify (map Some lhs))"
      unfolding R_def by blast
    have "\<not> isIdent k1" using nodes_isIdent [OF _ A(1)] by auto
    then have "k1 = k" using k(2) by simp
    then have "AssignStmt (c_assign c) lhs t rhs \<in> set (nodes n)"
      using A(1) k(1) nodes_kid by blast
    then show "R n c" unfolding R_def using A(2,3) by blast
  qed
  have "\<forall>c \<in> set (clist x'). c \<in> set (clist x) \<or> R n c" using a b up by blast
  then show ?case unfolding W snd_conv R_def .
qed

section \<open>Errors of the walk; init, range and communication-clause positions\<close>

text \<open>
  Claim C8. When the walk has recorded an error, xlateFile returns an error that is
  not nil and the tree as the walk left it: no change of the list is applied. The
  error holds the errors of the walk, ordered by file name, then line, then column,
  then message.
\<close>

theorem errors_stop_translation:
  assumes "Walk fp visitor0 root xlate0 = (root1, x)" and "elist x \<noteq> []"
  shows "\<exists>es. xlateFile fp root = Inr (root1, es) \<and> es \<noteq> [] \<and> mset es = mset (elist x)
           \<and> sorted_wrt
                (\<lambda>e f. Filename (Pos e) < Filename (Pos f)
                   \<or> Filename (Pos e) = Filename (Pos f)
                      \<and> (Line (Pos e) < Line (Pos f)
                         \<or> Line (Pos e) = Line (Pos f)
                            \<and> (Column (Pos e) < Column (Pos f)
                               \<or> Column (Pos e) = Column (Pos f) \<and> Msg e \<le> Msg f))) es"
proof -
  let ?es = "sortErrors (elist x)"
  have 1: "xlateFile fp root = Inr (root1, ?es)" using assms by (simp add: xlateFile_def)
  have 2: "?es \<noteq> []" using assms(2) by (simp add: sortErrors_Nil)
  have 3: "mset ?es = mset (elist x)" by (simp add: sortErrors_def)
  have "sorted (map errorKey ?es)" by (simp add: sortErrors_def)
  then have "sorted_wrt (\<lambda>e f. errorKey e \<le> errorKey f) ?es" by (simp add: sorted_map)
  then have 4: "sorted_wrt
                (\<lambda>e f. Filename (Pos e) < Filename (Pos f)
                   \<or> Filename (Pos e) = Filename (Pos f)
                      \<and> (Line (Pos e) < Line (Pos f)
                         \<or> Line (Pos e) = Line (Pos f)
                            \<and> (Column (Pos e) < Column (Pos f)
                               \<or> Column (Pos e) = Column (Pos f) \<and> Msg e \<le> Msg f))) ?es"
    by (rule sorted_wrt_mono_rel [rotated]) (auto simp: errorKey_def less_eq_prod_def)
  show ?thesis using 1 2 3 4 by blast
qed


definition exInit :: node where
  "exInit =
     Other 1
       [BlockStmt 1
          [IfStmt (Some (AssignStmt 2 [Ident 20 '':n'', Ident 24 ''err''] ASSIGN
                          [Other 30 [Ident 30 ''f'']]))
             (Other 35 [Ident 35 ''err'', Ident 42 ''nil''])
             (BlockStmt 3 [AssignStmt 4 [Ident 50 '':m''] ASSIGN [Ident 55 '':n'']])
             None]]"

definition exInitWalked :: node where
  "exInitWalked =
     Other 1
       [BlockStmt 1
          [IfStmt (Some (AssignStmt 2 [Ident 20 ''n'', Ident 24 ''err''] ASSIGN
                          [Other 30 [Ident 30 ''f'']]))
             (Other 35 [Ident 35 ''err'', Ident 42 ''nil''])
             (BlockStmt 3 [AssignStmt 4 [Ident 50 ''m''] ASSIGN [Ident 55 '':n'']])
             None]]"

text \<open>
  The positions of a file in which a \<^verbatim>\<open>//line\<close> comment gives the text from offset 30
  on a smaller line number than the text before it.
\<close>

definition exFposLine :: "int \<Rightarrow> position" where
  "exFposLine p = \<lparr>Filename = ''x.goo'', Line = (if p < 30 then 7 else 3), Column = p\<rparr>"

lemma exInit_walked:
  "Walk fp visitor0 exInit xlate0 =
     (exInitWalked,
      \<lparr>clist = [\<lparr>c_assign = 4, c_kind = None, c_list = Some 3, c_ptr = None, c_ref = Some 4\<rparr>],
        elist = [\<lparr>Pos = fp 20, Msg = mixedInitMsg\<rparr>, \<lparr>Pos = fp 55, Msg = colonMsg\<rparr>]\<rparr>)"
  by (simp add: exInit_def exInitWalked_def Walk.simps assignFields_eq countTok_def classify_def
        hasPrefix_def unmarkNode_def assignPos_def xlate0_def visitor0_def ident_def opt_def
        fill_def one_def)

theorem errors_stop_translation_witness:
  "Walk exFposLine visitor0 exInit xlate0 =
     (exInitWalked,
      \<lparr>clist = [\<lparr>c_assign = 4, c_kind = None, c_list = Some 3, c_ptr = None, c_ref = Some 4\<rparr>],
        elist = [\<lparr>Pos = exFposLine 20, Msg = mixedInitMsg\<rparr>,
                 \<lparr>Pos = exFposLine 55, Msg = colonMsg\<rparr>]\<rparr>)
   \<and> xlateFile exFposLine exInit =
       Inr (exInitWalked,
            [\<lparr>Pos = exFposLine 55, Msg = colonMsg\<rparr>, \<lparr>Pos = exFposLine 20, Msg = mixedInitMsg\<rparr>])"
proof -
  note w = exInit_walked [of exFposLine]
  have s: "sortErrors [\<lparr>Pos = exFposLine 20, Msg = mixedInitMsg\<rparr>,
                        \<lparr>Pos = exFposLine 55, Msg = colonMsg\<rparr>]
             = [\<lparr>Pos = exFposLine 55, Msg = colonMsg\<rparr>, \<lparr>Pos = exFposLine 20, Msg = mixedInitMsg\<rparr>]"
    by (simp add: sortErrors_def errorKey_def exFposLine_def)
  show ?thesis
    using w s errors_stop_translation [OF w] by (simp add: xlateFile_def)
qed

text \<open>
  Claim C3. The walk of a for, if, switch or type switch statement walks its children
  with \<^verbatim>\<open>init\<close> set, and the walk of a communication clause walks its children with
  \<^verbatim>\<open>comm\<close> the \<^verbatim>\<open>Comm\<close> of the clause. The walk of an assignment with \<^verbatim>\<open>init\<close> set, or
  that is the \<^verbatim>\<open>Comm\<close> of its clause, and the walk of a range statement: with no
  declaration the construct is left as it was; with declarations only, its operator
  becomes \<^verbatim>\<open>:=\<close>; with both, an error is added at the position of the construct and
  the operator stays (in both cases processLhs has taken the colons off the names).
  No change is recorded for the construct, and the walk goes on into its children.
\<close>

theorem init_range_comm_rule:
  "(v_init v \<or> v_comm v = Some a \<longrightarrow>
      Walk fp v (AssignStmt a lhs t rhs) x =
        (case processLhs (map Some lhs) of
           (decl, assign, kind, es) \<Rightarrow>
             (case (if decl = 0 then (lhs, t, x)
                    else if assign = 0 then (map unmarkNode lhs, DEFINE, x)
                    else (map unmarkNode lhs, t,
                          x\<lparr>elist := elist x @ [\<lparr>Pos = fp (assignPos lhs), Msg = mixedInitMsg\<rparr>]\<rparr>))
              of (lhs', t', x1) \<Rightarrow>
                (case walkList (Walk fp visitor0) (lhs' @ rhs) x1 of
                   (ks, x2) \<Rightarrow>
                     (AssignStmt a (take (length lhs) ks) t' (drop (length lhs) ks), x2)))))
   \<and> Walk fp v (RangeStmt p k vl rt e body) x =
        (case processLhs [k, vl] of
           (decl, assign, kind, es) \<Rightarrow>
             (case (if decl = 0 then (RangeStmt p k vl rt e body, x)
                    else if assign = 0 then (RangeStmt p (unmark k) (unmark vl) DEFINE e body, x)
                    else (RangeStmt p (unmark k) (unmark vl) rt e body,
                          x\<lparr>elist := elist x @ [\<lparr>Pos = fp p, Msg = mixedRangeMsg\<rparr>]\<rparr>))
              of (r', x1) \<Rightarrow>
                (case walkList (Walk fp visitor0) (kids r') x1 of
                   (ks, x2) \<Rightarrow> (withKids r' ks, x2))))
   \<and> Walk fp v (ForStmt i1 c1 p1 b1) x =
        (case walkList (Walk fp (visitor0\<lparr>v_init := True\<rparr>)) (kids (ForStmt i1 c1 p1 b1)) x of
           (ks, x') \<Rightarrow> (withKids (ForStmt i1 c1 p1 b1) ks, x'))
   \<and> Walk fp v (IfStmt i2 c2 b2 e2) x =
        (case walkList (Walk fp (visitor0\<lparr>v_init := True\<rparr>)) (kids (IfStmt i2 c2 b2 e2)) x of
           (ks, x') \<Rightarrow> (withKids (IfStmt i2 c2 b2 e2) ks, x'))
   \<and> Walk fp v (SwitchStmt i3 t3 b3) x =
        (case walkList (Walk fp (visitor0\<lparr>v_init := True\<rparr>)) (kids (SwitchStmt i3 t3 b3)) x of
           (ks, x') \<Rightarrow> (withKids (SwitchStmt i3 t3 b3) ks, x'))
   \<and> Walk fp v (TypeSwitchStmt i4 a4 b4) x =
        (case walkList (Walk fp (visitor0\<lparr>v_init := True\<rparr>)) (kids (TypeSwitchStmt i4 a4 b4)) x of
           (ks, x') \<Rightarrow> (withKids (TypeSwitchStmt i4 a4 b4) ks, x'))
   \<and> Walk fp v (CommClause l (Some (AssignStmt a lhs t rhs)) b5) x =
        (case walkList (Walk fp (visitor0\<lparr>v_list := Some l, v_comm := Some a\<rparr>))
                (AssignStmt a lhs t rhs # b5) x of
           (ks, x') \<Rightarrow> (withKids (CommClause l (Some (AssignStmt a lhs t rhs)) b5) ks, x'))"
proof -
  have A: "v_init v \<or> v_comm v = Some a \<Longrightarrow>
      Walk fp v (AssignStmt a lhs t rhs) x =
        (case processLhs (map Some lhs) of
           (decl, assign, kind, es) \<Rightarrow>
             (case (if decl = 0 then (lhs, t, x)
                    else if assign = 0 then (map unmarkNode lhs, DEFINE, x)
                    else (map unmarkNode lhs, t,
                          x\<lparr>elist := elist x @ [\<lparr>Pos = fp (assignPos lhs), Msg = mixedInitMsg\<rparr>]\<rparr>))
              of (lhs', t', x1) \<Rightarrow>
                (case walkList (Walk fp visitor0) (lhs' @ rhs) x1 of
                   (ks, x2) \<Rightarrow>
                     (AssignStmt a (take (length lhs) ks) t' (drop (length lhs) ks), x2))))"
    by (subst Walk.simps) (simp add: assignFields_eq processLhs_eq del: map_map)
  have R: "Walk fp v (RangeStmt p k vl rt e body) x =
        (case processLhs [k, vl] of
           (decl, assign, kind, es) \<Rightarrow>
             (case (if decl = 0 then (RangeStmt p k vl rt e body, x)
                    else if assign = 0 then (RangeStmt p (unmark k) (unmark vl) DEFINE e body, x)
                    else (RangeStmt p (unmark k) (unmark vl) rt e body,
                          x\<lparr>elist := elist x @ [\<lparr>Pos = fp p, Msg = mixedRangeMsg\<rparr>]\<rparr>))
              of (r', x1) \<Rightarrow>
                (case walkList (Walk fp visitor0) (kids r') x1 of
                   (ks, x2) \<Rightarrow> (withKids r' ks, x2))))"
    by (subst Walk.simps) (simp add: rangeFields_eq processLhs_eq)
  have H: "Walk fp v (ForStmt i1 c1 p1 b1) x =
        (case walkList (Walk fp (visitor0\<lparr>v_init := True\<rparr>)) (kids (ForStmt i1 c1 p1 b1)) x of
           (ks, x') \<Rightarrow> (withKids (ForStmt i1 c1 p1 b1) ks, x'))"
    "Walk fp v (IfStmt i2 c2 b2 e2) x =
        (case walkList (Walk fp (visitor0\<lparr>v_init := True\<rparr>)) (kids (IfStmt i2 c2 b2 e2)) x of
           (ks, x') \<Rightarrow> (withKids (IfStmt i2 c2 b2 e2) ks, x'))"
    "Walk fp v (SwitchStmt i3 t3 b3) x =
        (case walkList (Walk fp (visitor0\<lparr>v_init := True\<rparr>)) (kids (SwitchStmt i3 t3 b3)) x of
           (ks, x') \<Rightarrow> (withKids (SwitchStmt i3 t3 b3) ks, x'))"
    "Walk fp v (TypeSwitchStmt i4 a4 b4) x =
        (case walkList (Walk fp (visitor0\<lparr>v_init := True\<rparr>)) (kids (TypeSwitchStmt i4 a4 b4)) x of
           (ks, x') \<Rightarrow> (withKids (TypeSwitchStmt i4 a4 b4) ks, x'))"
    by (subst Walk.simps, simp)+
  have C: "Walk fp v (CommClause l (Some (AssignStmt a lhs t rhs)) b5) x =
        (case walkList (Walk fp (visitor0\<lparr>v_list := Some l, v_comm := Some a\<rparr>))
                (AssignStmt a lhs t rhs # b5) x of
           (ks, x') \<Rightarrow> (withKids (CommClause l (Some (AssignStmt a lhs t rhs)) b5) ks, x'))"
    by (subst Walk.simps) (simp add: opt_def)
  show ?thesis using A R H C by blast
qed


subsection \<open>Headers, a range statement and a communication clause\<close>

text \<open>
  \<^verbatim>\<open>if :n, :err = f(); err != nil {}\<close>, \<^verbatim>\<open>for i = 0; ; {}\<close>,
  \<^verbatim>\<open>for :i, :v = range xs {}\<close>, \<^verbatim>\<open>for :i, v = range xs {}\<close> and
  \<^verbatim>\<open>select { case :v = <-ch: v }\<close>, each in the body of a function.
\<close>

definition exIfDecl :: "token \<Rightarrow> string \<Rightarrow> string \<Rightarrow> node" where
  "exIfDecl t n e =
     Other 1
       [BlockStmt 1
          [IfStmt (Some (AssignStmt 2 [Ident 20 n, Ident 24 e] t [Other 30 [Ident 30 ''f'']]))
             (Other 35 [Ident 35 ''err'', Ident 42 ''nil''])
             (BlockStmt 3 [])
             None]]"

definition exForPlain :: node where
  "exForPlain =
     Other 1
       [BlockStmt 1
          [ForStmt (Some (AssignStmt 2 [Ident 14 ''i''] ASSIGN [Other 18 []])) None None
             (BlockStmt 3 [])]]"

definition exRange :: "token \<Rightarrow> string \<Rightarrow> string \<Rightarrow> node" where
  "exRange t i v =
     Other 1
       [BlockStmt 1
          [RangeStmt 10 (Some (Ident 14 i)) (Some (Ident 18 v)) t (Ident 28 ''xs'')
             (BlockStmt 2 [])]]"

definition exComm :: "token \<Rightarrow> string \<Rightarrow> node" where
  "exComm t v =
     Other 1
       [BlockStmt 1
          [Other 10
             [BlockStmt 2
                [CommClause 3 (Some (AssignStmt 4 [Ident 20 v] t [Other 25 [Ident 27 ''ch'']]))
                   [Other 40 [Ident 40 ''v'']]]]]]"

theorem init_range_comm_rule_witness:
  "v_init (visitor0\<lparr>v_init := True\<rparr>)
   \<and> Walk exFpos (visitor0\<lparr>v_init := True\<rparr>)
        (AssignStmt 2 [Ident 20 '':n'', Ident 24 '':err''] ASSIGN [Other 30 [Ident 30 ''f'']]) xlate0
       = (AssignStmt 2 [Ident 20 ''n'', Ident 24 ''err''] DEFINE [Other 30 [Ident 30 ''f'']], xlate0)
   \<and> xlateFile exFpos (exIfDecl ASSIGN '':n'' '':err'') = Inr (exIfDecl DEFINE ''n'' ''err'', [])
   \<and> xlateFile exFpos (exIfDecl ASSIGN ''_'' '':err'') = Inr (exIfDecl DEFINE ''_'' ''err'', [])
   \<and> xlateFile exFpos (exIfDecl ASSIGN '':n'' ''err'')
       = Inr (exIfDecl ASSIGN ''n'' ''err'', [\<lparr>Pos = exFpos 20, Msg = mixedInitMsg\<rparr>])
   \<and> xlateFile exFpos exForPlain = Inr (exForPlain, [])
   \<and> xlateFile exFpos (exRange ASSIGN '':i'' '':v'') = Inr (exRange DEFINE ''i'' ''v'', [])
   \<and> xlateFile exFpos (exRange ASSIGN ''i'' ''v'') = Inr (exRange ASSIGN ''i'' ''v'', [])
   \<and> xlateFile exFpos (exRange ASSIGN '':i'' ''v'')
       = Inr (exRange ASSIGN ''i'' ''v'', [\<lparr>Pos = exFpos 10, Msg = mixedRangeMsg\<rparr>])
   \<and> xlateFile exFpos (exComm ASSIGN '':v'') = Inr (exComm DEFINE ''v'', [])"
proof -
  note ev = xlateFile_def Walk.simps assignFields_eq rangeFields_eq processLhs_eq countTok_def
    classify_def hasPrefix_def unmarkNode_def unmark_def assignPos_def xlate0_def visitor0_def
    ident_def opt_def fill_def one_def sortErrors_def
  have 1: "v_init (visitor0\<lparr>v_init := True\<rparr>)" by simp
  have 2: "Walk exFpos (visitor0\<lparr>v_init := True\<rparr>)
        (AssignStmt 2 [Ident 20 '':n'', Ident 24 '':err''] ASSIGN [Other 30 [Ident 30 ''f'']]) xlate0
       = (AssignStmt 2 [Ident 20 ''n'', Ident 24 ''err''] DEFINE [Other 30 [Ident 30 ''f'']], xlate0)"
    using 1
      init_range_comm_rule
        [where v = "visitor0\<lparr>v_init := True\<rparr>" and a = 2 and fp = exFpos
           and lhs = "[Ident 20 '':n'', Ident 24 '':err'']" and t = ASSIGN
           and rhs = "[Other 30 [Ident 30 ''f'']]" and x = xlate0]
    by (simp add: ev del: map_map)
  have 3: "xlateFile exFpos (exIfDecl ASSIGN '':n'' '':err'') = Inr (exIfDecl DEFINE ''n'' ''err'', [])"
    "xlateFile exFpos (exIfDecl ASSIGN ''_'' '':err'') = Inr (exIfDecl DEFINE ''_'' ''err'', [])"
    "xlateFile exFpos (exIfDecl ASSIGN '':n'' ''err'')
       = Inr (exIfDecl ASSIGN ''n'' ''err'', [\<lparr>Pos = exFpos 20, Msg = mixedInitMsg\<rparr>])"
    by (simp_all add: exIfDecl_def ev del: map_map)
  have 4: "xlateFile exFpos exForPlain = Inr (exForPlain, [])"
    by (simp add: exForPlain_def ev del: map_map)
  have 5: "xlateFile exFpos (exRange ASSIGN '':i'' '':v'') = Inr (exRange DEFINE ''i'' ''v'', [])"
    "xlateFile exFpos (exRange ASSIGN ''i'' ''v'') = Inr (exRange ASSIGN ''i'' ''v'', [])"
    "xlateFile exFpos (exRange ASSIGN '':i'' ''v'')
       = Inr (exRange ASSIGN ''i'' ''v'', [\<lparr>Pos = exFpos 10, Msg = mixedRangeMsg\<rparr>])"
    by (simp_all add: exRange_def ev del: map_map)
  have 6: "xlateFile exFpos (exComm ASSIGN '':v'') = Inr (exComm DEFINE ''v'', [])"
    by (simp add: exComm_def ev del: map_map)
  show ?thesis using 1 2 3 4 5 6 by blast
qed

section \<open>The claims about a whole run of xlateFile\<close>

text \<open>
  The state in which a change of the list is applied: the tree, the counter and the
  next free address as the changes before it left them.
\<close>

lemma run_state:
  assumes "distinct (addrs root)" "grammatical root" "\<not> stmtLike root"
    and "Walk fp visitor0 root xlate0 = (T, x)"
    and "clist x = pre @ c # post"
    and "applyAll pre 0 (newAddr T) T = Inr (R, tc, nx)"
  shows "Inv R (c # post) nx"
proof -
  have "Inv T (pre @ c # post) (newAddr T)"
    using Walk_Inv [OF assms(1,2,3,4)] assms(5) by simp
  then show ?thesis using assms(6) by (rule applyAll_Inv)
qed

lemma recorded_origin:
  assumes "Walk fp visitor0 root xlate0 = (T, x)" "c \<in> set (clist x)"
  shows "\<exists>lhs0 t0 rhs0. AssignStmt (c_assign c) lhs0 t0 rhs0 \<in> set (nodes root)
          \<and> c_kind c = (if 0 < countTok ASSIGN (map classify (map Some lhs0))
                         then Some (map classify (map Some lhs0)) else None)
          \<and> 0 < countTok VAR (map classify (map Some lhs0))"
  using Walk_clist_origin [of fp visitor0 root xlate0] assms by (simp add: xlate0_def del: map_map)



subsection \<open>Two mixed assignments in one list, the second under two labels\<close>

text \<open>
  The body \<^verbatim>\<open>{ :a, b = f(); L: M: :n, err = g() }\<close>, the two changes that the walk
  records, the tree after the first change and the tree after both.
\<close>

definition exLabeled :: node where
  "exLabeled =
     Other 1
       [BlockStmt 1
          [AssignStmt 2 [Ident 10 '':a'', Ident 14 ''b''] ASSIGN [Other 18 [Ident 18 ''f'']],
           LabeledStmt 3 (Ident 30 ''L'')
             (LabeledStmt 4 (Ident 33 ''M'')
                (AssignStmt 5 [Ident 36 '':n'', Ident 40 ''err''] ASSIGN
                   [Other 46 [Ident 46 ''g'']]))]]"

definition exLabeledWalked :: node where
  "exLabeledWalked =
     Other 1
       [BlockStmt 1
          [AssignStmt 2 [Ident 10 ''a'', Ident 14 ''b''] ASSIGN [Other 18 [Ident 18 ''f'']],
           LabeledStmt 3 (Ident 30 ''L'')
             (LabeledStmt 4 (Ident 33 ''M'')
                (AssignStmt 5 [Ident 36 ''n'', Ident 40 ''err''] ASSIGN
                   [Other 46 [Ident 46 ''g'']]))]]"

definition exFirst :: change where
  "exFirst =
     \<lparr>c_assign = 2, c_kind = Some [VAR, ASSIGN], c_list = Some 1, c_ptr = None, c_ref = Some 2\<rparr>"

definition exSecond :: change where
  "exSecond =
     \<lparr>c_assign = 5, c_kind = Some [VAR, ASSIGN], c_list = Some 1, c_ptr = Some 4, c_ref = Some 3\<rparr>"

definition exLabeledMid :: node where
  "exLabeledMid =
     Other 1
       [BlockStmt 1
          [AssignStmt 2 [Ident 0 ''GOOEY_TEMP_0'', Ident 0 ''GOOEY_TEMP_1''] DEFINE
             [Other 18 [Ident 18 ''f'']],
           DeclStmt VAR [Ident 10 ''a''] [Ident 0 ''GOOEY_TEMP_0''],
           AssignStmt 6 [Ident 14 ''b''] ASSIGN [Ident 0 ''GOOEY_TEMP_1''],
           LabeledStmt 3 (Ident 30 ''L'')
             (LabeledStmt 4 (Ident 33 ''M'')
                (AssignStmt 5 [Ident 36 ''n'', Ident 40 ''err''] ASSIGN
                   [Other 46 [Ident 46 ''g'']]))]]"

definition exLabeledDone :: node where
  "exLabeledDone =
     Other 1
       [BlockStmt 1
          [AssignStmt 2 [Ident 0 ''GOOEY_TEMP_0'', Ident 0 ''GOOEY_TEMP_1''] DEFINE
             [Other 18 [Ident 18 ''f'']],
           DeclStmt VAR [Ident 10 ''a''] [Ident 0 ''GOOEY_TEMP_0''],
           AssignStmt 6 [Ident 14 ''b''] ASSIGN [Ident 0 ''GOOEY_TEMP_1''],
           LabeledStmt 3 (Ident 30 ''L'')
             (LabeledStmt 4 (Ident 33 ''M'')
                (AssignStmt 5 [Ident 0 ''GOOEY_TEMP_2'', Ident 0 ''GOOEY_TEMP_3''] DEFINE
                   [Other 46 [Ident 46 ''g'']])),
           DeclStmt VAR [Ident 36 ''n''] [Ident 0 ''GOOEY_TEMP_2''],
           AssignStmt 7 [Ident 40 ''err''] ASSIGN [Ident 0 ''GOOEY_TEMP_3'']]]"

lemmas gram_eval =
  grammatical_def nodes.simps stmtLike_def opt_def

lemma exLabeled_wf:
  "distinct (addrs exLabeled)" "grammatical exLabeled" "\<not> stmtLike exLabeled"
  by (simp_all add: exLabeled_def addrs.simps gram_eval)

lemma exLabeled_walked:
  "Walk exFpos visitor0 exLabeled xlate0
     = (exLabeledWalked, xlate0\<lparr>clist := [exFirst, exSecond]\<rparr>)"
  by (simp add: exLabeled_def exLabeledWalked_def exFirst_def exSecond_def Walk.simps
        assignFields_eq xlate0_def visitor0_def ident_def ex_eval)

lemma exLabeled_newAddr: "newAddr exLabeledWalked = 6"
  by (simp add: exLabeledWalked_def ex_eval)

lemma exLabeled_first: "applyChange exFirst 0 6 exLabeledWalked = Inr (exLabeledMid, 2, 7)"
  by (simp add: applyChange_def applyMixed_def exFirst_def exLabeledWalked_def
        exLabeledMid_def Let_def ex_eval)

lemma exLabeled_second: "applyChange exSecond 2 7 exLabeledMid = Inr (exLabeledDone, 4, 8)"
  by (simp add: applyChange_def applyMixed_def exSecond_def exLabeledMid_def
        exLabeledDone_def Let_def ex_eval)

lemma exLabeled_translated: "xlateFile exFpos exLabeled = Inr (exLabeledDone, [])"
  unfolding xlateFile_def exLabeled_walked
  by (simp add: exLabeled_first exLabeled_second exLabeled_newAddr xlate0_def)



text \<open>
  Claim C9. Let the walk of a tree, whose nodes are distinct and which follows the
  grammar, record the change \<open>c\<close> with no kinds, and let the changes before \<open>c\<close> have
  been applied. Then \<open>c\<close> was recorded for an assignment of the tree with a declared
  target and no reassigned one; every expression of the left-hand side that
  \<^verbatim>\<open>c.assign\<close> has when \<open>c\<close> is applied is an identifier; applyNonMixed returns; and
  no type assertion panics in the whole run of xlateFile.
\<close>

theorem nonmixed_targets_are_identifiers:
  assumes "distinct (addrs root)" and "grammatical root" and "\<not> stmtLike root"
    and "Walk fp visitor0 root xlate0 = (T, x)"
    and "clist x = pre @ c # post" and "c_kind c = None"
    and "applyAll pre 0 (newAddr T) T = Inr (R, tc, nx)"
  shows "\<exists>lhs0 t0 rhs0 lhs t rhs R2.
      AssignStmt (c_assign c) lhs0 t0 rhs0 \<in> set (nodes root)
      \<and> 0 < countTok VAR (map classify (map Some lhs0))
      \<and> countTok ASSIGN (map classify (map Some lhs0)) = 0
      \<and> derefAssign (c_assign c) R = Some (lhs, t, rhs) \<and> list_all isIdent lhs
      \<and> applyNonMixed c R = Inr R2 \<and> applyChange c tc nx R = Inr (R2, tc, nx)
      \<and> xlateFile fp root \<noteq> Inl TypeAssertion"
proof -
  have inv: "Inv R (c # post) nx" using assms(1,2,3,4,5,7) by (rule run_state)
  have "c \<in> set (clist x)" using assms(5) by simp
  from recorded_origin [OF assms(4) this] obtain lhs0 t0 rhs0 where
    o: "AssignStmt (c_assign c) lhs0 t0 rhs0 \<in> set (nodes root)"
       "c_kind c = (if 0 < countTok ASSIGN (map classify (map Some lhs0))
                         then Some (map classify (map Some lhs0)) else None)"
       "0 < countTok VAR (map classify (map Some lhs0))"
    by blast
  have "\<not> 0 < countTok ASSIGN (map classify (map Some lhs0))"
    using o(2) assms(6) by (auto split: if_splits)
  then have z: "countTok ASSIGN (map classify (map Some lhs0)) = 0"
    by (simp add: countTok_pos countTok_zero del: map_map)
  have d: "distinct (addrs R)" and p: "pending c R" using Inv_head [OF inv] by blast+
  from pending_in_place [OF p d] obtain lhs t rhs where
    a: "derefAssign (c_assign c) R = Some (lhs, t, rhs)" "compat (c_kind c) lhs"
    by blast
  have ids: "list_all isIdent lhs" using a(2) assms(6) by (simp add: compat_def)
  from step_nonMixed [OF inv assms(6)] obtain R2 where n: "applyNonMixed c R = Inr R2" by blast
  have ap: "applyChange c tc nx R = Inr (R2, tc, nx)"
    using n assms(6) by (simp add: applyChange_def)
  have "xlateFile fp root \<noteq> Inl TypeAssertion"
    using xlateFile_total [OF assms(1,2,3), of fp] by auto
  then show ?thesis using o(1,3) z a(1) ids n ap by blast
qed

subsection \<open>Two declarations in one list, the second under a label\<close>

text \<open>The body \<^verbatim>\<open>{ :a = 1; L: :b, _ = f() }\<close>.\<close>

definition exDecl :: node where
  "exDecl =
     Other 1
       [BlockStmt 1
          [AssignStmt 2 [Ident 10 '':a''] ASSIGN [Other 15 []],
           LabeledStmt 3 (Ident 20 ''L'')
             (AssignStmt 4 [Ident 23 '':b'', Ident 27 ''_''] ASSIGN [Other 31 [Ident 31 ''f'']])]]"

definition exDeclWalked :: node where
  "exDeclWalked =
     Other 1
       [BlockStmt 1
          [AssignStmt 2 [Ident 10 ''a''] ASSIGN [Other 15 []],
           LabeledStmt 3 (Ident 20 ''L'')
             (AssignStmt 4 [Ident 23 ''b'', Ident 27 ''_''] ASSIGN [Other 31 [Ident 31 ''f'']])]]"

definition exDeclFirst :: change where
  "exDeclFirst =
     \<lparr>c_assign = 2, c_kind = None, c_list = Some 1, c_ptr = None, c_ref = Some 2\<rparr>"

definition exDeclSecond :: change where
  "exDeclSecond =
     \<lparr>c_assign = 4, c_kind = None, c_list = Some 1, c_ptr = Some 3, c_ref = Some 3\<rparr>"

definition exDeclMid :: node where
  "exDeclMid =
     Other 1
       [BlockStmt 1
          [DeclStmt VAR [Ident 10 ''a''] [Other 15 []],
           LabeledStmt 3 (Ident 20 ''L'')
             (AssignStmt 4 [Ident 23 ''b'', Ident 27 ''_''] ASSIGN [Other 31 [Ident 31 ''f'']])]]"

definition exDeclDone :: node where
  "exDeclDone =
     Other 1
       [BlockStmt 1
          [DeclStmt VAR [Ident 10 ''a''] [Other 15 []],
           LabeledStmt 3 (Ident 20 ''L'')
             (DeclStmt VAR [Ident 23 ''b'', Ident 27 ''_''] [Other 31 [Ident 31 ''f'']])]]"

lemma exDecl_wf:
  "distinct (addrs exDecl)" "grammatical exDecl" "\<not> stmtLike exDecl"
  by (simp_all add: exDecl_def addrs.simps gram_eval)

lemma exDecl_walked:
  "Walk exFpos visitor0 exDecl xlate0
     = (exDeclWalked, xlate0\<lparr>clist := [exDeclFirst, exDeclSecond]\<rparr>)"
  by (simp add: exDecl_def exDeclWalked_def exDeclFirst_def exDeclSecond_def Walk.simps
        assignFields_eq xlate0_def visitor0_def ident_def ex_eval)

lemma exDecl_newAddr: "newAddr exDeclWalked = 5"
  by (simp add: exDeclWalked_def ex_eval)

lemma exDecl_first: "applyChange exDeclFirst 0 5 exDeclWalked = Inr (exDeclMid, 0, 5)"
  by (simp add: applyChange_def applyNonMixed_def exDeclFirst_def exDeclWalked_def
        exDeclMid_def Let_def ex_eval)

lemma exDecl_second: "applyChange exDeclSecond 0 5 exDeclMid = Inr (exDeclDone, 0, 5)"
  by (simp add: applyChange_def applyNonMixed_def exDeclSecond_def exDeclMid_def
        exDeclDone_def Let_def ex_eval)

theorem nonmixed_targets_are_identifiers_witness:
  "distinct (addrs exDecl) \<and> grammatical exDecl \<and> \<not> stmtLike exDecl
   \<and> Walk exFpos visitor0 exDecl xlate0
        = (exDeclWalked, xlate0\<lparr>clist := [exDeclFirst, exDeclSecond]\<rparr>)
   \<and> c_kind exDeclSecond = None
   \<and> applyAll [exDeclFirst] 0 (newAddr exDeclWalked) exDeclWalked = Inr (exDeclMid, 0, 5)
   \<and> derefAssign 4 exDeclMid
        = Some ([Ident 23 ''b'', Ident 27 ''_''], ASSIGN, [Other 31 [Ident 31 ''f'']])
   \<and> applyChange exDeclSecond 0 5 exDeclMid = Inr (exDeclDone, 0, 5)
   \<and> xlateFile exFpos exDecl = Inr (exDeclDone, [])
   \<and> xlateFile exFpos exDecl \<noteq> Inl TypeAssertion"
proof -
  have h5: "clist (xlate0\<lparr>clist := [exDeclFirst, exDeclSecond]\<rparr>) = [exDeclFirst] @ exDeclSecond # []"
    by simp
  have h6: "c_kind exDeclSecond = None" by (simp add: exDeclSecond_def)
  have h7: "applyAll [exDeclFirst] 0 (newAddr exDeclWalked) exDeclWalked = Inr (exDeclMid, 0, 5)"
    by (simp add: exDecl_first exDecl_newAddr)
  note t = nonmixed_targets_are_identifiers [OF exDecl_wf exDecl_walked h5 h6 h7]
  have a: "derefAssign 4 exDeclMid
        = Some ([Ident 23 ''b'', Ident 27 ''_''], ASSIGN, [Other 31 [Ident 31 ''f'']])"
    by (simp add: exDeclMid_def ex_eval)
  have x: "xlateFile exFpos exDecl = Inr (exDeclDone, [])"
    unfolding xlateFile_def exDecl_walked
    by (simp add: exDecl_first exDecl_second exDecl_newAddr xlate0_def)
  show ?thesis
    using t exDecl_wf exDecl_walked h6 h7 a exDecl_second x by auto
qed

text \<open>
  Claim C10. Let the walk of a tree, whose nodes are distinct and which follows the
  grammar, record the change \<open>c\<close>, and let the changes before \<open>c\<close> have been applied.
  Then \<^verbatim>\<open>c.list\<close> and \<^verbatim>\<open>c.ref\<close> are not nil, indexStmt finds \<^verbatim>\<open>c.ref\<close> in \<^verbatim>\<open>*c.list\<close>: the
  statement at the index it returns is the one \<^verbatim>\<open>c.ref\<close> points to, and it is the
  assignment of \<open>c\<close> or leads to it through its labels. The change applies without a
  panic, and so does every change of the run: xlateFile returns.
\<close>

theorem indexStmt_finds_reference:
  assumes "distinct (addrs root)" and "grammatical root" and "\<not> stmtLike root"
    and "Walk fp visitor0 root xlate0 = (T, x)"
    and "clist x = pre @ c # post"
    and "applyAll pre 0 (newAddr T) T = Inr (R, tc, nx)"
  shows "\<exists>stmts i r res.
      derefList (c_list c) R = Inr stmts
      \<and> c_ref c = Some r \<and> indexStmt stmts (c_ref c) = Some i \<and> i < length stmts
      \<and> addrOf (stmts ! i) = Some r \<and> leadsTo c (stmts ! i)
      \<and> applyChange c tc nx R = Inr res
      \<and> (\<exists>res'. xlateFile fp root = Inr res')"
proof -
  have inv: "Inv R (c # post) nx" using assms by (rule run_state)
  have d: "distinct (addrs R)" and p: "pending c R" using Inv_head [OF inv] by blast+
  from pending_in_place [OF p d] obtain lid N stmts i where
    a: "c_list c = Some lid" "getAt lid R = Some N" "stmtsOf N = Some stmts"
       "indexStmt stmts (c_ref c) = Some i" "addrOf (stmts ! i) = c_ref c"
       "leadsTo c (stmts ! i)"
    by blast
  have dl: "derefList (c_list c) R = Inr stmts" using a(1,2,3) by (simp add: derefList_def)
  have il: "i < length stmts" using indexStmt_Some [OF a(4)] by simp
  obtain r where r: "c_ref c = Some r" using indexStmt_Some [OF a(4)] by auto
  have ar: "addrOf (stmts ! i) = Some r" using a(5) r by simp
  from step_change [OF inv, of tc] obtain res where ap: "applyChange c tc nx R = Inr res"
    by blast
  have "\<exists>res'. xlateFile fp root = Inr res'" using assms(1,2,3) by (rule xlateFile_total)
  then show ?thesis using dl r a(4) il ar a(6) ap by blast
qed

theorem indexStmt_finds_reference_witness:
  "distinct (addrs exLabeled) \<and> grammatical exLabeled \<and> \<not> stmtLike exLabeled
   \<and> Walk exFpos visitor0 exLabeled xlate0
        = (exLabeledWalked, xlate0\<lparr>clist := [exFirst, exSecond]\<rparr>)
   \<and> applyAll [exFirst] 0 (newAddr exLabeledWalked) exLabeledWalked = Inr (exLabeledMid, 2, 7)
   \<and> indexStmt
        [AssignStmt 2 [Ident 10 ''a'', Ident 14 ''b''] ASSIGN [Other 18 [Ident 18 ''f'']],
         LabeledStmt 3 (Ident 30 ''L'')
           (LabeledStmt 4 (Ident 33 ''M'')
              (AssignStmt 5 [Ident 36 ''n'', Ident 40 ''err''] ASSIGN
                 [Other 46 [Ident 46 ''g'']]))]
        (c_ref exSecond) = Some 1
   \<and> (\<exists>stmts. derefList (c_list exSecond) exLabeledMid = Inr stmts
          \<and> indexStmt stmts (c_ref exSecond) = Some 3
          \<and> addrOf (stmts ! 3) = Some 3 \<and> leadsTo exSecond (stmts ! 3))
   \<and> applyChange exSecond 2 7 exLabeledMid = Inr (exLabeledDone, 4, 8)
   \<and> xlateFile exFpos exLabeled = Inr (exLabeledDone, [])"
proof -
  have h5: "clist (xlate0\<lparr>clist := [exFirst, exSecond]\<rparr>) = [exFirst] @ exSecond # []" by simp
  have h7: "applyAll [exFirst] 0 (newAddr exLabeledWalked) exLabeledWalked
              = Inr (exLabeledMid, 2, 7)"
    by (simp add: exLabeled_first exLabeled_newAddr)
  note t = indexStmt_finds_reference [OF exLabeled_wf exLabeled_walked h5 h7]
  have i0: "indexStmt
        [AssignStmt 2 [Ident 10 ''a'', Ident 14 ''b''] ASSIGN [Other 18 [Ident 18 ''f'']],
         LabeledStmt 3 (Ident 30 ''L'')
           (LabeledStmt 4 (Ident 33 ''M'')
              (AssignStmt 5 [Ident 36 ''n'', Ident 40 ''err''] ASSIGN
                 [Other 46 [Ident 46 ''g'']]))]
        (c_ref exSecond) = Some 1"
    by (simp add: exSecond_def)
  have i1: "\<exists>stmts. derefList (c_list exSecond) exLabeledMid = Inr stmts
          \<and> indexStmt stmts (c_ref exSecond) = Some 3
          \<and> addrOf (stmts ! 3) = Some 3 \<and> leadsTo exSecond (stmts ! 3)"
    by (simp add: exLabeledMid_def exSecond_def compat_def ex_eval)
  show ?thesis
    using t exLabeled_wf exLabeled_walked h7 i0 i1 exLabeled_second exLabeled_translated
    by blast
qed

end
